theory Spec2Isabelle
  imports Main "HOL-Library.Sublist"
begin

section \<open>The singleton cache (\<open>src/_singleton.ts\<close>)\<close>

text \<open>
  \<open>singleton(key, fn)\<close> keeps one process-wide \<open>Map\<close>. What \<open>fn()\<close> does is one of
  three things: it throws, it returns a value that is not promise-like, or it returns a
  promise-like object. \<open>fn\<close> may have effects of its own, so it is a transformer of a
  world \<open>'w\<close>: whether \<open>fn\<close> ran is visible in the world.

  For a promise-like result the source starts an async closure that awaits the promise
  and stores the closure's own promise in the cache. The closure's promise is
  \<open>Wrapper n\<close>, numbered by creation; \<open>wrappers\<close> remembers the key each closure was
  started for. When the awaited promise settles the closure resumes (\<open>resume\<close>): it stores
  the value under the key, or deletes the key and rethrows.
\<close>

datatype ('v, 'e) returns = Throws 'e | Plain 'v | PromiseLike nat

datatype 'v cached = Val 'v | Wrapper nat

datatype ('v, 'e) settled = Fulfilled 'v | RejectedWith 'e

record ('k, 'v, 'w) singleton_state =
  cache :: "'k \<rightharpoonup> 'v cached"
  wrappers :: "'k list"
  world :: 'w

definition singleton ::
  "'k \<Rightarrow> ('w \<Rightarrow> ('v, 'e) returns \<times> 'w) \<Rightarrow> ('k, 'v, 'w) singleton_state
    \<Rightarrow> ('e + 'v cached) \<times> ('k, 'v, 'w) singleton_state" where
  "singleton key fn s =
     (case cache s key of
        Some c \<Rightarrow> (Inr c, s)
      | None \<Rightarrow>
          (case fn (world s) of
             (Throws e, w) \<Rightarrow> (Inl e, s\<lparr>world := w\<rparr>)
           | (PromiseLike p, w) \<Rightarrow>
               (let promise = Wrapper (length (wrappers s)) in
                (Inr promise,
                 s\<lparr>cache := (cache s)(key \<mapsto> promise),
                   wrappers := wrappers s @ [key],
                   world := w\<rparr>))
           | (Plain v, w) \<Rightarrow>
               (Inr (Val v), s\<lparr>cache := (cache s)(key \<mapsto> Val v), world := w\<rparr>)))"

text \<open>
  The continuation of the async closure number \<open>n\<close> after \<open>await returns\<close>: the \<open>try\<close>
  branch stores the value, the \<open>catch\<close> branch deletes the entry. The result is what the
  closure's promise settles to.
\<close>

definition resume ::
  "nat \<Rightarrow> ('v, 'e) settled \<Rightarrow> ('k, 'v, 'w) singleton_state
    \<Rightarrow> ('e + 'v) \<times> ('k, 'v, 'w) singleton_state" where
  "resume n r s =
     (let key = wrappers s ! n in
      case r of
        Fulfilled v \<Rightarrow> (Inr v, s\<lparr>cache := (cache s)(key \<mapsto> Val v)\<rparr>)
      | RejectedWith e \<Rightarrow> (Inl e, s\<lparr>cache := (cache s)(key := None)\<rparr>))"

definition singleton_init :: "'w \<Rightarrow> ('k, 'v, 'w) singleton_state" where
  "singleton_init w = \<lparr>cache = Map.empty, wrappers = [], world = w\<rparr>"

section \<open>Queue items and lock handles (\<open>src/asyncmux.ts\<close>, common types)\<close>

text \<open>
  A queue item is a tagged union. Its \<open>ready\<close> promise only ever goes from pending to
  resolved, so it is the flag "resolved"; \<open>start\<close> resolves it (for an item created with
  \<open>Promise.resolve()\<close> the flag is set from the beginning and \<open>start\<close> is the empty
  function). The steps of a writer item are closures; \<open>'f\<close> is the type of their
  representation as data. Items are objects shared by reference between queues and
  closures, so they live in a heap and are named by their index there. A step promise
  (\<open>Promise.withResolvers\<close>) is a flag in \<open>promises\<close>.
\<close>

datatype tag = W | R | G

datatype 'f queue_item =
    QueueItemW bool "'f list"
  | QueueItemR bool int
  | QueueItemG bool

fun type :: "'f queue_item \<Rightarrow> tag" where
  "type (QueueItemW r ss) = W"
| "type (QueueItemR r c) = R"
| "type (QueueItemG r) = G"

fun ready :: "'f queue_item \<Rightarrow> bool" where
  "ready (QueueItemW r ss) = r"
| "ready (QueueItemR r c) = r"
| "ready (QueueItemG r) = r"

fun steps :: "'f queue_item \<Rightarrow> 'f list" where
  "steps (QueueItemW r ss) = ss"
| "steps (QueueItemR r c) = []"
| "steps (QueueItemG r) = []"

fun count :: "'f queue_item \<Rightarrow> int" where
  "count (QueueItemR r c) = c"
| "count (QueueItemW r ss) = 0"
| "count (QueueItemG r) = 0"

fun start :: "'f queue_item \<Rightarrow> 'f queue_item" where
  "start (QueueItemW r ss) = QueueItemW True ss"
| "start (QueueItemR r c) = QueueItemR True c"
| "start (QueueItemG r) = QueueItemG True"

text \<open>
  \<open>steps.shift()\<close>, \<open>steps.push(f)\<close> and \<open>count += n\<close>. The source applies them to items
  it holds at type \<open>QueueItemW\<close> respectively \<open>QueueItemR\<close>; on the other tags they leave
  the item alone.
\<close>

fun steps_shift :: "'f queue_item \<Rightarrow> 'f queue_item" where
  "steps_shift (QueueItemW r ss) = QueueItemW r (tl ss)"
| "steps_shift (QueueItemR r c) = QueueItemR r c"
| "steps_shift (QueueItemG r) = QueueItemG r"

fun steps_push :: "'f \<Rightarrow> 'f queue_item \<Rightarrow> 'f queue_item" where
  "steps_push f (QueueItemW r ss) = QueueItemW r (ss @ [f])"
| "steps_push f (QueueItemR r c) = QueueItemR r c"
| "steps_push f (QueueItemG r) = QueueItemG r"

fun count_add :: "int \<Rightarrow> 'f queue_item \<Rightarrow> 'f queue_item" where
  "count_add n (QueueItemR r c) = QueueItemR r (c + n)"
| "count_add n (QueueItemW r ss) = QueueItemW r ss"
| "count_add n (QueueItemG r) = QueueItemG r"

record 'f heap =
  items :: "'f queue_item list"
  promises :: "bool list"

text \<open>\<open>queue[queue.length - 1]\<close>: \<open>undefined\<close> on the empty array.\<close>

definition latest :: "nat list \<Rightarrow> nat option" where
  "latest q = (if q = [] then None else Some (last q))"

text \<open>
  The reason of an abort signal is any value; a string stands for it. An abort signal is
  absent, or present and not yet aborted, or present and aborted with its reason.
\<close>

type_synonym reason = string

datatype abort_signal = NoSignal | Signal "reason option"

datatype error = LockEscalationError | UnreachableError | AbortReason reason

text \<open>\<open>abortSignal?.throwIfAborted()\<close>\<close>

fun throwIfAborted :: "abort_signal \<Rightarrow> error option" where
  "throwIfAborted NoSignal = None"
| "throwIfAborted (Signal None) = None"
| "throwIfAborted (Signal (Some r)) = Some (AbortReason r)"

text \<open>
  What the promise returned by an acquisition has become: still pending, fulfilled with
  an \<open>AsyncmuxLock\<close>, or rejected.
\<close>

datatype outcome = Pending | Locked | Rejected error

text \<open>
  class \<open>AsyncmuxLock\<close>: the private \<open>#resolve\<close> (the resolver of the acquisition's
  \<open>unlockPromise\<close>, an action on the state \<open>'s\<close> it lives in) and the flag
  \<open>#unlockCalled\<close>. Both methods return the handle as they leave it.
\<close>

record 's AsyncmuxLock =
  resolve :: "'s \<Rightarrow> 's"
  unlockCalled :: bool

definition new_AsyncmuxLock :: "('s \<Rightarrow> 's) \<Rightarrow> 's AsyncmuxLock" where
  "new_AsyncmuxLock r = \<lparr>resolve = r, unlockCalled = False\<rparr>"

definition unlock :: "'s AsyncmuxLock \<Rightarrow> 's \<Rightarrow> 's AsyncmuxLock \<times> 's" where
  "unlock h s = (h\<lparr>unlockCalled := True\<rparr>, resolve h s)"

definition dispose :: "'s AsyncmuxLock \<Rightarrow> 's \<Rightarrow> 's AsyncmuxLock \<times> 's" where
  "dispose h s = (if unlockCalled h then (h, s) else (h, resolve h s))"

section \<open>The instance form: decorators and \<open>manualLock\<close>\<close>

text \<open>
  The closures the instance form stores or calls later, as data: the \<open>next\<close> of
  \<open>asyncmuxClassMethod\<close> (it closes over \<open>writableItem\<close> and \<open>context\<close>), the \<open>next\<close> of
  \<open>asyncmuxReadonlyClassMethod\<close> (over \<open>readonlyItem\<close> and \<open>context\<close>) and the \<open>resolve\<close>
  of a step promise.
\<close>

datatype func = Next nat nat | NextR nat nat | Resolve nat

text \<open>class \<open>AsyncmuxContext\<close>; the queue holds references to items.\<close>

record asyncmux_context =
  queue :: "nat list"
  lockType :: "tag option"

definition new_AsyncmuxContext :: "tag option \<Rightarrow> asyncmux_context" where
  "new_AsyncmuxContext t = \<lparr>queue = [], lockType = t\<rparr>"

text \<open>
  The wrapped \<open>method\<close>: a decorated method of the user's class, or the \<open>waitForUnlock\<close>
  of the \<open>manualLock\<close> call with the given number.
\<close>

datatype body = UserMethod | WaitForUnlock nat

text \<open>
  One call of a wrapped method, from its synchronous part on: the \<open>context\<close> it read
  from \<open>this[CONTEXT]\<close>, its \<open>next\<close>, the item whose \<open>ready\<close> it awaits, its
  \<open>stepPromise\<close> (if any), the lock type its \<open>then\<close> callback installs, the method it
  wraps, and how far it got: its \<open>then\<close> callback has not run, the method is running, or
  its \<open>finally\<close> callback has run.
\<close>

datatype phase = Waiting | Running | Finished

record invocation =
  captured :: nat
  release :: func
  item :: nat
  stepPromise :: "nat option"
  installs :: tag
  wrapped :: body
  phase :: phase

text \<open>
  The promises of one manual acquisition (a call of \<open>manualLock\<close>, or of \<open>lock\<close> or
  \<open>rLock\<close> of the keyed form): whether an abort signal was passed and its listener is
  registered, what the returned promise has become, and whether \<open>unlockPromise\<close> is
  resolved.
\<close>

record lock_request =
  listening :: bool
  result :: outcome
  unlockPromise :: bool

text \<open>
  The owner object (\<open>this\<close>) with everything reachable from it: the value of
  \<open>this[CONTEXT]\<close> (\<open>None\<close> before \<open>initializeInstance\<close>), the \<open>AsyncmuxContext\<close> objects
  ever created, and the calls in flight.
\<close>

record owner = "func heap" +
  CONTEXT :: "nat option"
  contexts :: "asyncmux_context list"
  invocations :: "invocation list"
  manuals :: "lock_request list"

definition new_owner :: owner where
  "new_owner = \<lparr>items = [], promises = [], CONTEXT = None, contexts = [],
     invocations = [], manuals = []\<rparr>"

definition initializeInstance :: "owner \<Rightarrow> owner" where
  "initializeInstance s =
     (case CONTEXT s of
        Some c \<Rightarrow> s
      | None \<Rightarrow> s\<lparr>CONTEXT := Some (length (contexts s)),
                 contexts := contexts s @ [new_AsyncmuxContext None]\<rparr>)"

text \<open>\<open>context.queue.shift(); context.queue[0]?.start();\<close>\<close>

definition shift_start :: "nat \<Rightarrow> owner \<Rightarrow> owner" where
  "shift_start c s =
     (let q = tl (queue (contexts s ! c));
          s1 = s\<lparr>contexts := (contexts s)[c := (contexts s ! c)\<lparr>queue := q\<rparr>]\<rparr>
      in case q of
           [] \<Rightarrow> s1
         | i # _ \<Rightarrow> s1\<lparr>items := (items s1)[i := start (items s1 ! i)]\<rparr>)"

text \<open>
  Calling a closure. \<open>next\<close> of a writer takes the first step off \<open>writableItem.steps\<close>
  and calls it; with no step left it shifts the queue and starts the new head. A closure
  only ever names an item that exists; the bound check says so and makes the recursion
  well-founded (every recursive call has taken one step off some item).
\<close>

function call :: "func \<Rightarrow> owner \<Rightarrow> owner" where
  "call (Resolve p) s = s\<lparr>promises := (promises s)[p := True]\<rparr>"
| "call (NextR r c) s =
     (if r < length (items s) then
        (let s1 = s\<lparr>items := (items s)[r := count_add (- 1) (items s ! r)]\<rparr>
         in if count (items s1 ! r) = 0 then shift_start c s1 else s1)
      else s)"
| "call (Next w c) s =
     (if w < length (items s) then
        (case steps (items s ! w) of
           [] \<Rightarrow> shift_start c s
         | step # rest \<Rightarrow>
             call step (s\<lparr>items := (items s)[w := steps_shift (items s ! w)]\<rparr>))
      else s)"
  by pat_completeness auto
termination
proof (relation "measure (\<lambda>(f, s). sum_list (map (\<lambda>it. length (steps it)) (items s)))")
  show "wf (measure (\<lambda>(f, s). sum_list (map (\<lambda>it. length (steps it)) (items s))))"
    by simp
next
  fix w c :: nat and s :: owner and step :: func and rest :: "func list"
  assume w: "w < length (items s)" and st: "steps (items s ! w) = step # rest"
  have "length (steps (steps_shift (items s ! w))) < length (steps (items s ! w))"
    using st by (cases "items s ! w") auto
  moreover have "length (steps (items s ! w)) \<le> sum_list (map (\<lambda>it. length (steps it)) (items s))"
    using w by (simp add: member_le_sum_list)
  ultimately show "((step, s\<lparr>items := (items s)[w := steps_shift (items s ! w)]\<rparr>), (Next w c, s))
      \<in> measure (\<lambda>(f, s). sum_list (map (\<lambda>it. length (steps it)) (items s)))"
    using w by (simp add: map_update sum_list_update)
qed

text \<open>
  \<open>context.queue.push(item)\<close> for a freshly created item: the item is allocated in the
  heap and its reference appended to the queue of context \<open>c\<close>. The result names the
  new item.
\<close>

definition push_new :: "func queue_item \<Rightarrow> nat \<Rightarrow> owner \<Rightarrow> nat \<times> owner" where
  "push_new it c s =
     (length (items s),
      s\<lparr>items := items s @ [it],
        contexts := (contexts s)[c := (contexts s ! c)\<lparr>queue := queue (contexts s ! c) @ [length (items s)]\<rparr>]\<rparr>)"

text \<open>
  The wrapped writer method, up to the point where it returns its promise. The result
  is the error it throws or rejects with at once, or the number of the call now in
  flight. \<open>unreachable\<close> guards the cases the source's types exclude.
\<close>

definition asyncmuxClassMethod :: "body \<Rightarrow> owner \<Rightarrow> (error + nat) \<times> owner" where
  "asyncmuxClassMethod m s =
     (case CONTEXT s of
        None \<Rightarrow> (Inl UnreachableError, s)
      | Some c \<Rightarrow>
          if lockType (contexts s ! c) = Some R then (Inl LockEscalationError, s)
          else if lockType (contexts s ! c) = Some G then (Inl UnreachableError, s)
          else
            (case map_option (\<lambda>i. type (items s ! i)) (latest (queue (contexts s ! c))) of
               Some G \<Rightarrow> (Inl UnreachableError, s)
             | t \<Rightarrow>
                 (let (writableItem, s1) =
                        (case t of
                           Some R \<Rightarrow> push_new (QueueItemW False []) c s
                         | Some W \<Rightarrow> (last (queue (contexts s ! c)), s)
                         | _ \<Rightarrow> push_new (QueueItemW True []) c s);
                      (sp, s2) =
                        (if steps (items s1 ! writableItem) = [] then
                           (None,
                            s1\<lparr>items := (items s1)[writableItem :=
                                 steps_push (Next writableItem c) (items s1 ! writableItem)]\<rparr>)
                         else
                           (Some (length (promises s1)),
                            s1\<lparr>items := (items s1)[writableItem :=
                                 steps_push (Resolve (length (promises s1))) (items s1 ! writableItem)],
                               promises := promises s1 @ [False]\<rparr>))
                  in (Inr (length (invocations s2)),
                      s2\<lparr>invocations := invocations s2 @
                         [\<lparr>captured = c, release = Next writableItem c, item = writableItem,
                           stepPromise = sp, installs = W, wrapped = m, phase = Waiting\<rparr>]\<rparr>))))"

text \<open>The wrapped reader method, likewise. It has no check of the lock type.\<close>

definition asyncmuxReadonlyClassMethod :: "body \<Rightarrow> owner \<Rightarrow> (error + nat) \<times> owner" where
  "asyncmuxReadonlyClassMethod m s =
     (case CONTEXT s of
        None \<Rightarrow> (Inl UnreachableError, s)
      | Some c \<Rightarrow>
          (case map_option (\<lambda>i. type (items s ! i)) (latest (queue (contexts s ! c))) of
             Some G \<Rightarrow> (Inl UnreachableError, s)
           | t \<Rightarrow>
               (let (readonlyItem, s1) =
                      (case t of
                         Some R \<Rightarrow> (last (queue (contexts s ! c)), s)
                       | Some W \<Rightarrow> push_new (QueueItemR False 0) c s
                       | _ \<Rightarrow> push_new (QueueItemR True 0) c s);
                    s2 = s1\<lparr>items := (items s1)[readonlyItem :=
                           count_add 1 (items s1 ! readonlyItem)]\<rparr>
                in (Inr (length (invocations s2)),
                    s2\<lparr>invocations := invocations s2 @
                       [\<lparr>captured = c, release = NextR readonlyItem c, item = readonlyItem,
                         stepPromise = None, installs = R, wrapped = m, phase = Waiting\<rparr>]\<rparr>))))"

text \<open>
  \<open>readyPromise\<close> of a call is resolved: the item's \<open>ready\<close> is, and then the step
  promise (where the call has one).
\<close>

definition is_ready :: "invocation \<Rightarrow> owner \<Rightarrow> bool" where
  "is_ready iv s =
     (ready (items s ! item iv) \<and>
      (case stepPromise iv of None \<Rightarrow> True | Some p \<Rightarrow> promises s ! p))"

text \<open>
  The \<open>then\<close> callback of call \<open>i\<close>: \<open>this[CONTEXT] = new AsyncmuxContext(...)\<close>, then the
  method starts. \<open>waitForUnlock\<close> calls \<open>ready()\<close> first: the promise \<open>manualLock\<close> returned
  is fulfilled with a handle unless it is settled already. The callback runs once, and
  only when \<open>readyPromise\<close> is resolved (\<open>can_begin\<close>).
\<close>

definition can_begin :: "nat \<Rightarrow> owner \<Rightarrow> bool" where
  "can_begin i s =
     (i < length (invocations s) \<and> phase (invocations s ! i) = Waiting \<and>
      is_ready (invocations s ! i) s)"

definition begin_body :: "nat \<Rightarrow> owner \<Rightarrow> owner" where
  "begin_body i s =
     (let iv = invocations s ! i;
          s1 = s\<lparr>CONTEXT := Some (length (contexts s)),
                 contexts := contexts s @ [new_AsyncmuxContext (Some (installs iv))],
                 invocations := (invocations s)[i := iv\<lparr>phase := Running\<rparr>]\<rparr>
      in case wrapped iv of
           UserMethod \<Rightarrow> s1
         | WaitForUnlock m \<Rightarrow>
             (if result (manuals s1 ! m) = Pending
              then s1\<lparr>manuals := (manuals s1)[m := (manuals s1 ! m)\<lparr>result := Locked\<rparr>]\<rparr>
              else s1))"

text \<open>
  The \<open>finally\<close> callback of call \<open>i\<close>: \<open>this[CONTEXT] = context; next();\<close>. It runs once,
  when the method's promise has settled: a user's method settles when it likes,
  \<open>waitForUnlock\<close> when \<open>unlockPromise\<close> is resolved.
\<close>

definition can_finish :: "nat \<Rightarrow> owner \<Rightarrow> bool" where
  "can_finish i s =
     (i < length (invocations s) \<and> phase (invocations s ! i) = Running \<and>
      (case wrapped (invocations s ! i) of
         UserMethod \<Rightarrow> True
       | WaitForUnlock m \<Rightarrow> unlockPromise (manuals s ! m)))"

definition finish_body :: "nat \<Rightarrow> owner \<Rightarrow> owner" where
  "finish_body i s =
     (let iv = invocations s ! i;
          s1 = call (release iv) (s\<lparr>CONTEXT := Some (captured iv)\<rparr>)
      in s1\<lparr>invocations := (invocations s1)[i := (invocations s1 ! i)\<lparr>phase := Finished\<rparr>]\<rparr>)"

text \<open>
  \<open>manualLock(this_, decorator, options)\<close>. \<open>decorator\<close> is the wrapped method that
  \<open>asyncmuxDecorator\<close> or \<open>asyncmuxReadonlyDecorator\<close> returns for \<open>waitForUnlock\<close>; running
  the initializers is \<open>initializeInstance\<close>. When the call fails at once (the signal is
  aborted already, or the wrapped method throws or rejects) the result is the error;
  otherwise it is the number of the manual lock, whose promise is pending.
\<close>

definition resolve_unlock :: "nat \<Rightarrow> owner \<Rightarrow> owner" where
  "resolve_unlock m s = s\<lparr>manuals := (manuals s)[m := (manuals s ! m)\<lparr>unlockPromise := True\<rparr>]\<rparr>"

definition manualLock ::
  "(body \<Rightarrow> owner \<Rightarrow> (error + nat) \<times> owner) \<Rightarrow> abort_signal \<Rightarrow> owner \<Rightarrow> (error + nat) \<times> owner" where
  "manualLock decorator options s =
     (case throwIfAborted options of
        Some e \<Rightarrow> (Inl e, s)
      | None \<Rightarrow>
          (let m = length (manuals s);
               s1 = s\<lparr>manuals := manuals s @
                      [\<lparr>listening = (options \<noteq> NoSignal), result = Pending, unlockPromise = False\<rparr>]\<rparr>;
               (r, s2) = decorator (WaitForUnlock m) (initializeInstance s1)
           in case r of
                Inl e \<Rightarrow>
                  (Inl e, s2\<lparr>manuals := (manuals s2)[m :=
                     (manuals s2 ! m)\<lparr>result := Rejected e, unlockPromise := True\<rparr>]\<rparr>)
              | Inr i \<Rightarrow> (Inr m, s2)))"

text \<open>
  \<open>onAbort\<close>: the signal of manual lock \<open>m\<close> fires with reason \<open>r\<close> while the listener is
  registered. If the returned promise is still pending it rejects with the reason and
  \<open>unlock()\<close> resolves \<open>unlockPromise\<close>.
\<close>

definition onAbort :: "nat \<Rightarrow> reason \<Rightarrow> owner \<Rightarrow> owner" where
  "onAbort m r s =
     (if listening (manuals s ! m) \<and> result (manuals s ! m) = Pending
      then s\<lparr>manuals := (manuals s)[m :=
             (manuals s ! m)\<lparr>result := Rejected (AbortReason r), unlockPromise := True\<rparr>]\<rparr>
      else s)"

text \<open>The handle \<open>new AsyncmuxLock(unlock)\<close> that manual lock \<open>m\<close> is fulfilled with.\<close>

definition manual_handle :: "nat \<Rightarrow> owner AsyncmuxLock" where
  "manual_handle m = new_AsyncmuxLock (resolve_unlock m)"

section \<open>The keyed form: class \<open>Asyncmux\<close>\<close>

text \<open>
  The closures of the keyed form: the \<open>next\<close> of \<open>lock\<close> (over \<open>writableItem\<close>, \<open>queue\<close> and
  \<open>key\<close>), the \<open>next\<close> of \<open>rLock\<close> (over \<open>readonlyItem\<close>, \<open>queue\<close> and \<open>key\<close>), the \<open>next\<close> of
  \<open>#getQueueEntries\<close> (over \<open>queue\<close> and \<open>key\<close>) and the \<open>resolve\<close> of a step promise. A
  key is \<open>None\<close> where the source has \<open>null\<close> or \<open>undefined\<close>.
\<close>

type_synonym key = string

datatype kfunc =
    LockNext nat nat "key option"
  | RLockNext nat nat "key option"
  | EntriesNext nat key
  | StepResolve nat

text \<open>
  One call of \<open>lock\<close> or \<open>rLock\<close>: its promises, \<open>nextFuncList\<close>, \<open>readyPromiseList\<close> (per
  queue entry the item whose \<open>ready\<close> is awaited and the step promise awaited after it,
  \<open>None\<close> where that is resolved from the start), and whether the \<open>finally(next)\<close>
  callback has run.
\<close>

record acquisition = lock_request +
  nextFuncList :: "kfunc list"
  readyPromiseList :: "(nat \<times> nat option) list"
  finalized :: bool

text \<open>
  The \<open>Asyncmux\<close> object with everything reachable from it. Queue arrays are objects too
  (a closure keeps its array after the key is deleted from the map): \<open>queues\<close> is their
  heap, and array \<open>0\<close> is \<open>#globalQueue\<close>. \<open>#partialQueue\<close> maps a key to its array, in
  insertion order. \<open>thens\<close> are the callbacks registered by \<open>globalItem.ready.then(next)\<close>:
  the item, the callback, and whether it has run.
\<close>

record asyncmux = "kfunc heap" +
  queues :: "nat list list"
  partialQueue :: "(key \<times> nat) list"
  thens :: "(nat \<times> kfunc \<times> bool) list"
  acquisitions :: "acquisition list"

definition new_Asyncmux :: asyncmux where
  "new_Asyncmux = \<lparr>items = [], promises = [], queues = [[]], partialQueue = [],
     thens = [], acquisitions = []\<rparr>"

text \<open>\<open>queue.push(item)\<close> for a freshly created item, on the array \<open>q\<close>.\<close>

definition queue_push :: "kfunc queue_item \<Rightarrow> nat \<Rightarrow> asyncmux \<Rightarrow> nat \<times> asyncmux" where
  "queue_push it q s =
     (length (items s),
      s\<lparr>items := items s @ [it], queues := (queues s)[q := queues s ! q @ [length (items s)]]\<rparr>)"

text \<open>
  \<open>#getQueueEntries(key)\<close>: the entries it yields, and the state it leaves. For a key
  without an array this obtains the trailing \<open>G\<close> item of the global queue (creating one
  if the global queue is empty or ends in another type), creates the array holding just
  this item, and registers \<open>next\<close> on the item's \<open>ready\<close>.
\<close>

definition getQueueEntries :: "key option \<Rightarrow> asyncmux \<Rightarrow> (key option \<times> nat) list \<times> asyncmux" where
  "getQueueEntries key s =
     (case key of
        None \<Rightarrow>
          if partialQueue s \<noteq> [] then (map (\<lambda>(k, q). (Some k, q)) (partialQueue s), s)
          else ([(None, 0)], s)
      | Some k \<Rightarrow>
          (case map_of (partialQueue s) k of
             Some q \<Rightarrow> ([(Some k, q)], s)
           | None \<Rightarrow>
               (let (globalItem, s1) =
                      (case latest (queues s ! 0) of
                         None \<Rightarrow> queue_push (QueueItemG True) 0 s
                       | Some l \<Rightarrow>
                           if type (items s ! l) \<noteq> G then queue_push (QueueItemG False) 0 s
                           else (l, s));
                    q = length (queues s1)
                in ([(Some k, q)],
                    s1\<lparr>queues := queues s1 @ [[globalItem]],
                       thens := thens s1 @ [(globalItem, EntriesNext q k, False)],
                       partialQueue := partialQueue s1 @ [(k, q)]\<rparr>))))"

text \<open>
  \<open>queue.shift(); const item = queue[0]; if (item) item.start(); else if (typeof key ===
  "string") this.#partialQueue.delete(key);\<close>
\<close>

definition shift_queue :: "nat \<Rightarrow> key option \<Rightarrow> asyncmux \<Rightarrow> asyncmux" where
  "shift_queue q key s =
     (let rest = tl (queues s ! q);
          s1 = s\<lparr>queues := (queues s)[q := rest]\<rparr>
      in case rest of
           i # _ \<Rightarrow> s1\<lparr>items := (items s1)[i := start (items s1 ! i)]\<rparr>
         | [] \<Rightarrow>
             (case key of
                Some k \<Rightarrow> s1\<lparr>partialQueue := filter (\<lambda>(k', q'). k' \<noteq> k) (partialQueue s1)\<rparr>
              | None \<Rightarrow> s1))"

text \<open>Calling a closure of the keyed form; the bound checks are as in \<open>call\<close>.\<close>

function kcall :: "kfunc \<Rightarrow> asyncmux \<Rightarrow> asyncmux" where
  "kcall (StepResolve p) s = s\<lparr>promises := (promises s)[p := True]\<rparr>"
| "kcall (EntriesNext q k) s = shift_queue q (Some k) s"
| "kcall (RLockNext r q key) s =
     (if r < length (items s) then
        (let s1 = s\<lparr>items := (items s)[r := count_add (- 1) (items s ! r)]\<rparr>
         in if count (items s1 ! r) = 0 then shift_queue q key s1 else s1)
      else s)"
| "kcall (LockNext w q key) s =
     (if w < length (items s) then
        (case steps (items s ! w) of
           [] \<Rightarrow> shift_queue q key s
         | step # rest \<Rightarrow>
             kcall step (s\<lparr>items := (items s)[w := steps_shift (items s ! w)]\<rparr>))
      else s)"
  by pat_completeness auto
termination
proof (relation "measure (\<lambda>(f, s). sum_list (map (\<lambda>it. length (steps it)) (items s)))")
  show "wf (measure (\<lambda>(f, s). sum_list (map (\<lambda>it. length (steps it)) (items s))))"
    by simp
next
  fix w q :: nat and key :: "key option" and s :: asyncmux and step :: kfunc
    and rest :: "kfunc list"
  assume w: "w < length (items s)" and st: "steps (items s ! w) = step # rest"
  have "length (steps (steps_shift (items s ! w))) < length (steps (items s ! w))"
    using st by (cases "items s ! w") auto
  moreover have "length (steps (items s ! w)) \<le> sum_list (map (\<lambda>it. length (steps it)) (items s))"
    using w by (simp add: member_le_sum_list)
  ultimately show "((step, s\<lparr>items := (items s)[w := steps_shift (items s ! w)]\<rparr>),
      (LockNext w q key, s))
      \<in> measure (\<lambda>(f, s). sum_list (map (\<lambda>it. length (steps it)) (items s)))"
    using w by (simp add: map_update sum_list_update)
qed

text \<open>
  The body of the \<open>for\<close> loop of \<open>lock\<close> for one entry: the closure pushed on
  \<open>nextFuncList\<close> and what its \<open>readyPromise\<close> awaits.
\<close>

definition lock_entry ::
  "key option \<times> nat \<Rightarrow> asyncmux \<Rightarrow> (kfunc \<times> nat \<times> nat option) \<times> asyncmux" where
  "lock_entry e s =
     (let (key, q) = e;
          (writableItem, s1) =
            (case latest (queues s ! q) of
               None \<Rightarrow> queue_push (QueueItemW True []) q s
             | Some l \<Rightarrow>
                 if type (items s ! l) \<noteq> W then queue_push (QueueItemW False []) q s
                 else (l, s));
          next = LockNext writableItem q key
      in if steps (items s1 ! writableItem) = [] then
           ((next, writableItem, None),
            s1\<lparr>items := (items s1)[writableItem := steps_push next (items s1 ! writableItem)]\<rparr>)
         else
           ((next, writableItem, Some (length (promises s1))),
            s1\<lparr>items := (items s1)[writableItem :=
                 steps_push (StepResolve (length (promises s1))) (items s1 ! writableItem)],
               promises := promises s1 @ [False]\<rparr>))"

text \<open>The body of the \<open>for\<close> loop of \<open>rLock\<close> for one entry.\<close>

definition rLock_entry ::
  "key option \<times> nat \<Rightarrow> asyncmux \<Rightarrow> (kfunc \<times> nat \<times> nat option) \<times> asyncmux" where
  "rLock_entry e s =
     (let (key, q) = e;
          (readonlyItem, s1) =
            (case latest (queues s ! q) of
               None \<Rightarrow> queue_push (QueueItemR True 0) q s
             | Some l \<Rightarrow>
                 if type (items s ! l) \<noteq> R then queue_push (QueueItemR False 0) q s
                 else (l, s))
      in ((RLockNext readonlyItem q key, readonlyItem, None),
          s1\<lparr>items := (items s1)[readonlyItem := count_add 1 (items s1 ! readonlyItem)]\<rparr>))"

text \<open>The \<open>for\<close> loop over the entries, collecting what each round pushes on the two lists.\<close>

fun for_entries ::
  "(key option \<times> nat \<Rightarrow> asyncmux \<Rightarrow> (kfunc \<times> nat \<times> nat option) \<times> asyncmux)
    \<Rightarrow> (key option \<times> nat) list \<Rightarrow> asyncmux \<Rightarrow> (kfunc \<times> nat \<times> nat option) list \<times> asyncmux" where
  "for_entries f [] s = ([], s)"
| "for_entries f (e # es) s =
     (let (x, s1) = f e s; (xs, s2) = for_entries f es s1 in (x # xs, s2))"

text \<open>
  \<open>lock\<close> and \<open>rLock\<close>, up to the point where they return their promise: the error the
  promise rejects with at once, or the number of the acquisition now in flight. They
  differ in the loop body only.
\<close>

definition acquire ::
  "(key option \<times> nat \<Rightarrow> asyncmux \<Rightarrow> (kfunc \<times> nat \<times> nat option) \<times> asyncmux)
    \<Rightarrow> key option \<Rightarrow> abort_signal \<Rightarrow> asyncmux \<Rightarrow> (error + nat) \<times> asyncmux" where
  "acquire f key abortSignal s =
     (case throwIfAborted abortSignal of
        Some e \<Rightarrow> (Inl e, s)
      | None \<Rightarrow>
          (let (queueEntries, s1) = getQueueEntries key s;
               (parts, s2) = for_entries f queueEntries s1
           in (Inr (length (acquisitions s2)),
               s2\<lparr>acquisitions := acquisitions s2 @
                  [\<lparr>listening = (abortSignal \<noteq> NoSignal), result = Pending,
                    unlockPromise = False, nextFuncList = map fst parts,
                    readyPromiseList = map snd parts, finalized = False\<rparr>]\<rparr>)))"

definition lock :: "key option \<Rightarrow> abort_signal \<Rightarrow> asyncmux \<Rightarrow> (error + nat) \<times> asyncmux" where
  "lock = acquire lock_entry"

definition rLock :: "key option \<Rightarrow> abort_signal \<Rightarrow> asyncmux \<Rightarrow> (error + nat) \<times> asyncmux" where
  "rLock = acquire rLock_entry"

text \<open>
  The callback number \<open>t\<close> registered with \<open>globalItem.ready.then(next)\<close>: it runs once,
  when the item's \<open>ready\<close> is resolved.
\<close>

definition can_run_then :: "nat \<Rightarrow> asyncmux \<Rightarrow> bool" where
  "can_run_then t s =
     (t < length (thens s) \<and>
      (case thens s ! t of (g, f, fired) \<Rightarrow> \<not> fired \<and> ready (items s ! g)))"

definition run_then :: "nat \<Rightarrow> asyncmux \<Rightarrow> asyncmux" where
  "run_then t s =
     (case thens s ! t of
        (g, f, fired) \<Rightarrow>
          (let s1 = kcall f s in s1\<lparr>thens := (thens s1)[t := (g, f, True)]\<rparr>))"

text \<open>\<open>Promise.all(readyPromiseList)\<close> of acquisition \<open>a\<close> is resolved.\<close>

definition all_ready :: "nat \<Rightarrow> asyncmux \<Rightarrow> bool" where
  "all_ready a s =
     list_all (\<lambda>(i, sp). ready (items s ! i) \<and> (case sp of None \<Rightarrow> True | Some p \<Rightarrow> promises s ! p))
       (readyPromiseList (acquisitions s ! a))"

text \<open>
  The race is won by \<open>readyPromise\<close>: the returned promise is fulfilled with
  \<open>new AsyncmuxLock(unlock)\<close>, and the abort listener is removed.
\<close>

definition can_grant :: "nat \<Rightarrow> asyncmux \<Rightarrow> bool" where
  "can_grant a s =
     (a < length (acquisitions s) \<and> result (acquisitions s ! a) = Pending \<and> all_ready a s)"

definition grant :: "nat \<Rightarrow> asyncmux \<Rightarrow> asyncmux" where
  "grant a s = s\<lparr>acquisitions := (acquisitions s)[a := (acquisitions s ! a)\<lparr>result := Locked\<rparr>]\<rparr>"

text \<open>
  The abort signal of acquisition \<open>a\<close> fires with reason \<open>r\<close>. While the returned promise
  is pending the race is won by \<open>abortPromise\<close>: \<open>unlock()\<close> resolves \<open>unlockPromise\<close> and
  the returned promise rejects with the reason.
\<close>

definition abort :: "nat \<Rightarrow> reason \<Rightarrow> asyncmux \<Rightarrow> asyncmux" where
  "abort a r s =
     (if listening (acquisitions s ! a) \<and> result (acquisitions s ! a) = Pending
      then s\<lparr>acquisitions := (acquisitions s)[a :=
             (acquisitions s ! a)\<lparr>result := Rejected (AbortReason r), unlockPromise := True\<rparr>]\<rparr>
      else s)"

text \<open>The resolver \<open>unlock\<close> of acquisition \<open>a\<close>, and the handle made from it.\<close>

definition kresolve_unlock :: "nat \<Rightarrow> asyncmux \<Rightarrow> asyncmux" where
  "kresolve_unlock a s =
     s\<lparr>acquisitions := (acquisitions s)[a := (acquisitions s ! a)\<lparr>unlockPromise := True\<rparr>]\<rparr>"

definition lock_handle :: "nat \<Rightarrow> asyncmux AsyncmuxLock" where
  "lock_handle a = new_AsyncmuxLock (kresolve_unlock a)"

text \<open>
  \<open>readyPromise.then(() => unlockPromise).finally(next)\<close>: the callback runs once, when
  both promises are resolved, and calls every closure of \<open>nextFuncList\<close> in order.
\<close>

definition can_finalize :: "nat \<Rightarrow> asyncmux \<Rightarrow> bool" where
  "can_finalize a s =
     (a < length (acquisitions s) \<and> \<not> finalized (acquisitions s ! a) \<and>
      unlockPromise (acquisitions s ! a) \<and> all_ready a s)"

definition finalize :: "nat \<Rightarrow> asyncmux \<Rightarrow> asyncmux" where
  "finalize a s =
     (let s1 = fold kcall (nextFuncList (acquisitions s ! a)) s
      in s1\<lparr>acquisitions := (acquisitions s1)[a := (acquisitions s1 ! a)\<lparr>finalized := True\<rparr>]\<rparr>)"

text \<open>A function for \<open>singleton\<close> that counts its runs in the world and returns \<open>r\<close>.\<close>

definition counting :: "(nat, string) returns \<Rightarrow> nat \<Rightarrow> (nat, string) returns \<times> nat" where
  "counting r w = (r, Suc w)"

text \<open>
  Three small states of an owner: a reader whose method is running, a writer that has
  arrived on the fresh owner, and that writer with its method running.
\<close>

definition reader_running :: owner where
  "reader_running =
     begin_body 0 (snd (asyncmuxReadonlyClassMethod UserMethod (initializeInstance new_owner)))"

definition writer_waiting :: owner where
  "writer_waiting = snd (asyncmuxClassMethod UserMethod (initializeInstance new_owner))"

definition writer_running :: owner where
  "writer_running = begin_body 0 writer_waiting"

section \<open>What can happen to an owner and to a keyed mux\<close>

text \<open>
  The runtime is single-threaded: between two suspension points code runs atomically.
  So a run of the instance form is a sequence of the following events, each an atomic
  piece of the source: the initializer runs; a decorated writer or reader method is
  called; \<open>asyncmux(this)\<close> or \<open>asyncmux.readonly(this)\<close> is called with a signal; the
  \<open>then\<close> or the \<open>finally\<close> callback of a call runs; an abort signal fires; the user
  unlocks the handle a manual lock was fulfilled with. An event can happen in a state
  only if it is \<open>enabled\<close> there.
\<close>

datatype event =
    Initialize
  | Write
  | Read
  | ManualWrite abort_signal
  | ManualRead abort_signal
  | Begin nat
  | Finish nat
  | OnAbort nat reason
  | Unlock nat

fun exec :: "event \<Rightarrow> owner \<Rightarrow> owner" where
  "exec Initialize s = initializeInstance s"
| "exec Write s = snd (asyncmuxClassMethod UserMethod s)"
| "exec Read s = snd (asyncmuxReadonlyClassMethod UserMethod s)"
| "exec (ManualWrite options) s = snd (manualLock asyncmuxClassMethod options s)"
| "exec (ManualRead options) s = snd (manualLock asyncmuxReadonlyClassMethod options s)"
| "exec (Begin i) s = begin_body i s"
| "exec (Finish i) s = finish_body i s"
| "exec (OnAbort m r) s = onAbort m r s"
| "exec (Unlock m) s = snd (unlock (manual_handle m) s)"

fun enabled :: "event \<Rightarrow> owner \<Rightarrow> bool" where
  "enabled (Begin i) s = can_begin i s"
| "enabled (Finish i) s = can_finish i s"
| "enabled (OnAbort m r) s = (m < length (manuals s))"
| "enabled (Unlock m) s = (m < length (manuals s) \<and> result (manuals s ! m) = Locked)"
| "enabled e s = True"

inductive reachable :: "owner \<Rightarrow> bool" where
  init: "reachable new_owner"
| step: "reachable s \<Longrightarrow> enabled e s \<Longrightarrow> reachable (exec e s)"

text \<open>
  Likewise for the keyed form: \<open>lock\<close> or \<open>rLock\<close> is called; a callback registered on a
  \<open>G\<close> item runs; an acquisition is fulfilled with its handle; an abort signal fires; the
  user unlocks (or disposes of) a handle; the \<open>finally(next)\<close> callback of an
  acquisition runs.
\<close>

datatype kevent =
    Lock "key option" abort_signal
  | RLock "key option" abort_signal
  | RunThen nat
  | Grant nat
  | Abort nat reason
  | Release nat
  | Finalize nat

fun kexec :: "kevent \<Rightarrow> asyncmux \<Rightarrow> asyncmux" where
  "kexec (Lock key options) s = snd (lock key options s)"
| "kexec (RLock key options) s = snd (rLock key options s)"
| "kexec (RunThen t) s = run_then t s"
| "kexec (Grant a) s = grant a s"
| "kexec (Abort a r) s = abort a r s"
| "kexec (Release a) s = snd (unlock (lock_handle a) s)"
| "kexec (Finalize a) s = finalize a s"

fun kenabled :: "kevent \<Rightarrow> asyncmux \<Rightarrow> bool" where
  "kenabled (RunThen t) s = can_run_then t s"
| "kenabled (Grant a) s = can_grant a s"
| "kenabled (Abort a r) s = (a < length (acquisitions s))"
| "kenabled (Release a) s = (a < length (acquisitions s) \<and> result (acquisitions s ! a) = Locked)"
| "kenabled (Finalize a) s = can_finalize a s"
| "kenabled e s = True"

inductive kreachable :: "asyncmux \<Rightarrow> bool" where
  kinit: "kreachable new_Asyncmux"
| kstep: "kreachable s \<Longrightarrow> kenabled e s \<Longrightarrow> kreachable (kexec e s)"

text \<open>A run: every event is enabled in the state the events before it lead to.\<close>

fun run_ok :: "event list \<Rightarrow> owner \<Rightarrow> bool" where
  "run_ok [] s = True"
| "run_ok (e # es) s = (enabled e s \<and> run_ok es (exec e s))"

fun krun_ok :: "kevent list \<Rightarrow> asyncmux \<Rightarrow> bool" where
  "krun_ok [] s = True"
| "krun_ok (e # es) s = (kenabled e s \<and> krun_ok es (kexec e s))"

text \<open>
  Every acquisition of the keyed form whose promise is rejected had an abort signal and
  is rejected with a reason of that signal.
\<close>

definition rejections_are_aborts :: "asyncmux \<Rightarrow> bool" where
  "rejections_are_aborts t =
     (\<forall>a < length (acquisitions t). \<forall>e. result (acquisitions t ! a) = Rejected e \<longrightarrow>
        listening (acquisitions t ! a) \<and> (\<exists>r. e = AbortReason r))"

text \<open>
  Three small states of a keyed mux: \<open>lock("k")\<close> acquired, unlocked and its release
  callback run; \<open>lock()\<close> called after that; and a second \<open>lock("k")\<close> whose signal
  fired while it was waiting behind the first.
\<close>

definition keyed_released :: asyncmux where
  "keyed_released =
     fold kexec [Lock (Some ''k'') NoSignal, RunThen 0, Grant 0, Release 0, Finalize 0] new_Asyncmux"

definition unkeyed_stuck :: asyncmux where
  "unkeyed_stuck = kexec (Lock None NoSignal) keyed_released"

definition aborted_waiter :: asyncmux where
  "aborted_waiter =
     fold kexec [Lock (Some ''k'') NoSignal, Lock (Some ''k'') (Signal None), Abort 1 ''stop'']
       new_Asyncmux"

text \<open>
  How the record of an acquisition may change in one event: its lists and its listener
  stay, and what has happened to its promises stays.
\<close>

definition settles :: "acquisition \<Rightarrow> acquisition \<Rightarrow> bool" where
  "settles old new =
     (listening new = listening old \<and> nextFuncList new = nextFuncList old \<and>
      readyPromiseList new = readyPromiseList old \<and>
      (finalized old \<longrightarrow> finalized new) \<and>
      (unlockPromise old \<longrightarrow> unlockPromise new) \<and>
      (result old \<noteq> Pending \<longrightarrow> result new = result old))"

text \<open>
  An owner on which \<open>asyncmux(this)\<close> was called, fulfilled, unlocked, and released.
\<close>

definition manual_finished :: owner where
  "manual_finished = fold exec [ManualWrite NoSignal, Begin 0, Unlock 0, Finish 0] new_owner"

text \<open>
  Two states of a keyed mux have the same queues: they agree on the items, the step
  promises, the queue arrays, the map and the registered callbacks, and their
  acquisitions have the same closures and await the same promises. They may differ in
  what has happened to the acquisitions' own promises.
\<close>

definition same_heap :: "asyncmux \<Rightarrow> asyncmux \<Rightarrow> bool" where
  "same_heap s t =
     (items s = items t \<and> promises s = promises t \<and> queues s = queues t \<and>
      partialQueue s = partialQueue t \<and> thens s = thens t)"

definition same_queues :: "asyncmux \<Rightarrow> asyncmux \<Rightarrow> bool" where
  "same_queues s t =
     (same_heap s t \<and>
      map nextFuncList (acquisitions s) = map nextFuncList (acquisitions t) \<and>
      map readyPromiseList (acquisitions s) = map readyPromiseList (acquisitions t))"

text \<open>
  Likewise for an owner: two states agree on everything but what has happened to the
  promises of the manual locks; and how the record of a manual lock may change.
\<close>

definition same_owner :: "owner \<Rightarrow> owner \<Rightarrow> bool" where
  "same_owner s t =
     (items s = items t \<and> promises s = promises t \<and> CONTEXT s = CONTEXT t \<and>
      contexts s = contexts t \<and> invocations s = invocations t \<and>
      length (manuals s) = length (manuals t))"

definition msettles :: "lock_request \<Rightarrow> lock_request \<Rightarrow> bool" where
  "msettles old new =
     (listening new = listening old \<and>
      (unlockPromise old \<longrightarrow> unlockPromise new) \<and>
      (result old \<noteq> Pending \<longrightarrow> result new = result old))"

text \<open>
  Acquisitions that wait behind a first one and were given an abort signal: the second
  of three \<open>lock("k")\<close>, the second of two \<open>rLock("k")\<close>, and likewise the second of three
  manual writer locks and of two manual reader locks of one owner.
\<close>

definition three_waiting :: asyncmux where
  "three_waiting =
     fold kexec [Lock (Some ''k'') NoSignal, Lock (Some ''k'') (Signal None),
       Lock (Some ''k'') NoSignal] new_Asyncmux"

definition two_reading :: asyncmux where
  "two_reading =
     fold kexec [RLock (Some ''k'') NoSignal, RLock (Some ''k'') (Signal None)] new_Asyncmux"

definition three_manual :: owner where
  "three_manual =
     fold exec [ManualWrite NoSignal, ManualWrite (Signal None), ManualWrite NoSignal] new_owner"

definition two_manual_readers :: owner where
  "two_manual_readers = fold exec [ManualRead NoSignal, ManualRead (Signal None)] new_owner"

text \<open>
  What is left of a step list once \<open>next\<close> has taken its own entry off the head, where it
  is there: \<open>next\<close> shifts the first step and calls it, and the first step of an item is
  the \<open>next\<close> of the call that created the list.
\<close>

definition after_own_next :: "'f \<Rightarrow> 'f list \<Rightarrow> 'f list" where
  "after_own_next f ss = (case ss of [] \<Rightarrow> [] | g # rest \<Rightarrow> if g = f then rest else ss)"

text \<open>
  A queue is in order, over a heap of items: adjacent items differ in their type, and
  every reference names an item of the heap. A heap may grow and its items may change,
  but an item keeps its type (\<open>same_types\<close>). An owner is in order when the queue of
  every context is; a keyed mux when it has its global queue and every queue array is
  in order.
\<close>

definition queue_ok :: "'f queue_item list \<Rightarrow> nat list \<Rightarrow> bool" where
  "queue_ok its q =
     (distinct_adj (map (\<lambda>i. type (its ! i)) q) \<and> (\<forall>i \<in> set q. i < length its))"

definition same_types :: "'f queue_item list \<Rightarrow> 'f queue_item list \<Rightarrow> bool" where
  "same_types its its' =
     (length its \<le> length its' \<and> (\<forall>i < length its. type (its' ! i) = type (its ! i)))"

definition owner_ok :: "owner \<Rightarrow> bool" where
  "owner_ok s = (\<forall>c < length (contexts s). queue_ok (items s) (queue (contexts s ! c)))"

definition mux_ok :: "asyncmux \<Rightarrow> bool" where
  "mux_ok t = (queues t \<noteq> [] \<and> (\<forall>q < length (queues t). queue_ok (items t) (queues t ! q)))"

text \<open>
  The arrivals of the mixed scenario of the tests (two writers, two readers, a writer, a
  reader) on one owner; and five arrivals on a keyed mux: \<open>lock()\<close>, \<open>lock("key1")\<close>,
  \<open>lock("key2")\<close>, \<open>lock()\<close>, \<open>rLock("key1")\<close>.
\<close>

definition mixed_arrivals :: owner where
  "mixed_arrivals = fold exec [Initialize, Write, Write, Read, Read, Write, Read] new_owner"

definition barrier_arrivals :: asyncmux where
  "barrier_arrivals =
     fold kexec [Lock None NoSignal, Lock (Some ''key1'') NoSignal, Lock (Some ''key2'') NoSignal,
       Lock None NoSignal, RLock (Some ''key1'') NoSignal] new_Asyncmux"

text \<open>
  A batch of writer calls on an idle owner. An owner is idle in context \<open>c\<close> when that is
  its current context, the queue of \<open>c\<close> is empty, and no reader's body is running. The
  calls \<open>b, b + 1, \<dots>\<close> of the batch arrive one after the other with nothing in between;
  they share the item \<open>w\<close>, and call \<open>b + j\<close> (for \<open>j > 0\<close>) waits for the step promise
  \<open>p + j - 1\<close>.
\<close>

definition writer_call :: "nat \<Rightarrow> nat \<Rightarrow> nat \<Rightarrow> nat \<Rightarrow> phase \<Rightarrow> invocation" where
  "writer_call c w p j ph =
     \<lparr>captured = c, release = Next w c, item = w,
      stepPromise = (if j = 0 then None else Some (p + j - 1)),
      installs = W, wrapped = UserMethod, phase = ph\<rparr>"

definition idle :: "nat \<Rightarrow> owner \<Rightarrow> bool" where
  "idle c s = (CONTEXT s = Some c \<and> c < length (contexts s) \<and> queue (contexts s ! c) = [] \<and>
     lockType (contexts s ! c) \<noteq> Some R \<and> lockType (contexts s ! c) \<noteq> Some G)"

text \<open>
  The state of an owner while a batch of \<open>N\<close> writer calls is served, after \<open>n\<close> of the
  callbacks of the batch have run: call \<open>b + j\<close> has finished when \<open>2 j + 1 < n\<close>, its body
  runs when \<open>n = 2 j + 1\<close>, and it waits otherwise; the step promises of the calls before
  the one whose turn it is are resolved, and the steps left on the item are those of the
  calls behind it.
\<close>

definition serving :: "nat \<Rightarrow> nat \<Rightarrow> nat \<Rightarrow> nat \<Rightarrow> nat \<Rightarrow> nat \<Rightarrow> owner \<Rightarrow> bool" where
  "serving c w p b N n s =
     (n \<le> 2 * N \<and> b + N \<le> length (invocations s) \<and>
      (\<forall>j < N. invocations s ! (b + j) =
         writer_call c w p j
           (if 2 * j + 1 < n then Finished else if 2 * j < n then Running else Waiting)) \<and>
      w < length (items s) \<and> ready (items s ! w) \<and>
      steps (items s ! w) =
        (if n < 2 then Next w c # map Resolve [p ..< p + N - 1]
         else map Resolve [p + n div 2 ..< p + N - 1]) \<and>
      p + N - 1 \<le> length (promises s) \<and>
      (\<forall>i < N - 1. promises s ! (p + i) = (i < n div 2)) \<and>
      c < length (contexts s) \<and> (n < 2 * N \<longrightarrow> queue (contexts s ! c) = [w]))"

definition arrived :: "nat \<Rightarrow> nat \<Rightarrow> nat \<Rightarrow> nat \<Rightarrow> nat \<Rightarrow> owner \<Rightarrow> bool" where
  "arrived c w p b N s =
     (serving c w p b N 0 s \<and> CONTEXT s = Some c \<and>
      lockType (contexts s ! c) \<noteq> Some R \<and> lockType (contexts s ! c) \<noteq> Some G \<and>
      type (items s ! w) = W \<and> length (invocations s) = b + N \<and>
      length (promises s) = p + N - 1 \<and> 0 < N)"

text \<open>
  The serial run of the batch: call \<open>b\<close> begins and finishes, then call \<open>b + 1\<close>, and so
  on. \<open>turn b n\<close> is the event at position \<open>n\<close> of it.
\<close>

definition serial :: "nat \<Rightarrow> nat \<Rightarrow> event list" where
  "serial b N =
     map (\<lambda>n. if even n then Begin (b + n div 2) else Finish (b + n div 2)) [0 ..< 2 * N]"

definition turn :: "nat \<Rightarrow> nat \<Rightarrow> event" where
  "turn b n = (if even n then Begin (b + n div 2) else Finish (b + n div 2))"

text \<open>
  The same for \<open>lock(key)\<close> of the keyed form. A key is idle when it has no queue array and
  the global queue is empty or ends in a \<open>G\<close> item whose \<open>ready\<close> is resolved. The
  acquisitions \<open>b, b + 1, \<dots>\<close> share the item \<open>w\<close> of the array \<open>q\<close>, which
  \<open>#getQueueEntries\<close> created behind the item \<open>g\<close> and whose callback is number \<open>th\<close>.
  After the callback, acquisition \<open>b + j\<close> is granted at position \<open>3 j + 1\<close>, unlocked at
  \<open>3 j + 2\<close>, and its \<open>finally(next)\<close> runs at \<open>3 j + 3\<close>.
\<close>

definition lock_call ::
  "nat \<Rightarrow> nat \<Rightarrow> key \<Rightarrow> nat \<Rightarrow> nat \<Rightarrow> outcome \<Rightarrow> bool \<Rightarrow> bool \<Rightarrow> acquisition" where
  "lock_call w q k p j res unl fin =
     \<lparr>listening = False, result = res, unlockPromise = unl,
      nextFuncList = [LockNext w q (Some k)],
      readyPromiseList = [(w, if j = 0 then None else Some (p + j - 1))],
      finalized = fin\<rparr>"

definition kidle :: "key \<Rightarrow> asyncmux \<Rightarrow> bool" where
  "kidle k s =
     (map_of (partialQueue s) k = None \<and> 0 < length (queues s) \<and>
      (case latest (queues s ! 0) of
         None \<Rightarrow> True
       | Some l \<Rightarrow> l < length (items s) \<and> type (items s ! l) = G \<and> ready (items s ! l)))"

definition kserving ::
  "key \<Rightarrow> nat \<Rightarrow> nat \<Rightarrow> nat \<Rightarrow> nat \<Rightarrow> nat \<Rightarrow> nat \<Rightarrow> nat \<Rightarrow> nat \<Rightarrow> asyncmux \<Rightarrow> bool" where
  "kserving k g w q th p b N n s =
     (n \<le> 3 * N + 1 \<and> b + N \<le> length (acquisitions s) \<and>
      (\<forall>j < N. acquisitions s ! (b + j) = lock_call w q k p j
         (if 3 * j + 1 < n then Locked else Pending) (3 * j + 2 < n) (3 * j + 3 < n)) \<and>
      th < length (thens s) \<and> thens s ! th = (g, EntriesNext q k, 0 < n) \<and>
      g < length (items s) \<and> (n = 0 \<longrightarrow> ready (items s ! g)) \<and>
      w < length (items s) \<and> ready (items s ! w) = (0 < n) \<and>
      steps (items s ! w) =
        (if n < 4 then LockNext w q (Some k) # map StepResolve [p ..< p + N - 1]
         else map StepResolve [p + (n - 1) div 3 ..< p + N - 1]) \<and>
      p + N - 1 \<le> length (promises s) \<and>
      (\<forall>i < N - 1. promises s ! (p + i) = (i < (n - 1) div 3)) \<and>
      q < length (queues s) \<and>
      (n < 3 * N + 1 \<longrightarrow> queues s ! q = (if n = 0 then [g, w] else [w])))"

definition karrived ::
  "key \<Rightarrow> nat \<Rightarrow> nat \<Rightarrow> nat \<Rightarrow> nat \<Rightarrow> nat \<Rightarrow> nat \<Rightarrow> nat \<Rightarrow> asyncmux \<Rightarrow> bool" where
  "karrived k g w q th p b N s =
     (kserving k g w q th p b N 0 s \<and> map_of (partialQueue s) k = Some q \<and>
      type (items s ! w) = W \<and> length (acquisitions s) = b + N \<and>
      length (promises s) = p + N - 1 \<and> 0 < N)"

definition kturn :: "nat \<Rightarrow> nat \<Rightarrow> nat \<Rightarrow> kevent" where
  "kturn th b n =
     (if n = 0 then RunThen th
      else if (n - 1) mod 3 = 0 then Grant (b + (n - 1) div 3)
      else if (n - 1) mod 3 = 1 then Release (b + (n - 1) div 3)
      else Finalize (b + (n - 1) div 3))"

definition kserial :: "nat \<Rightarrow> nat \<Rightarrow> nat \<Rightarrow> kevent list" where
  "kserial th b N = (if N = 0 then [] else map (kturn th b) [0 ..< 3 * N + 1])"

text \<open>
  An acquisition holds its lock from the moment its promise is fulfilled with the handle
  until \<open>unlock\<close> is called: that is when the code between \<open>await lock()\<close> and \<open>unlock()\<close>
  runs. The two states: \<open>lock("k")\<close> was called twice at once, the first acquisition has
  been granted, unlocked and released, and the second has been granted; then \<open>lock("k")\<close>
  is called twice more at once.
\<close>

definition holding :: "nat \<Rightarrow> asyncmux \<Rightarrow> bool" where
  "holding a s =
     (a < length (acquisitions s) \<and> result (acquisitions s ! a) = Locked \<and>
      \<not> unlockPromise (acquisitions s ! a))"

definition second_holder :: asyncmux where
  "second_holder =
     fold kexec [Lock (Some ''k'') NoSignal, Lock (Some ''k'') NoSignal,
       RunThen 0, Grant 0, Release 0, Finalize 0, Grant 1] new_Asyncmux"

definition late_pair :: asyncmux where
  "late_pair = fold kexec [Lock (Some ''k'') NoSignal, Lock (Some ''k'') NoSignal] second_holder"

text \<open>
  The events by which a call arrives: a decorated method is called, or \<open>asyncmux(this)\<close>
  respectively \<open>asyncmux.readonly(this)\<close>. And an owner with two readers whose methods
  both run.
\<close>

definition is_arrival :: "event \<Rightarrow> bool" where
  "is_arrival e = (case e of Write \<Rightarrow> True | Read \<Rightarrow> True | ManualWrite options \<Rightarrow> True
     | ManualRead options \<Rightarrow> True | _ \<Rightarrow> False)"

definition readers_overlap :: owner where
  "readers_overlap = fold exec [Initialize, Read, Read, Begin 0, Begin 1] new_owner"







section \<open>Properties of the singleton cache\<close>

lemma singleton_miss_runs_fn:
  "cache s key = None \<Longrightarrow> world (snd (singleton key fn s)) = snd (fn (world s))"
  by (cases "fn (world s)" rule: prod.exhaust; cases "fst (fn (world s))")
     (auto simp: singleton_def Let_def)

text \<open>
  C9. With an entry for the key in the cache, \<open>singleton\<close> returns the entry and changes
  nothing: \<open>fn\<close> is not run. Without an entry \<open>fn\<close> runs once, and:

  \<^item> when \<open>fn\<close> returns a value that is not promise-like, the value is written to the
    cache and returned, and the next call with the key (whatever its function) returns
    the same value without running its function;

  \<^item> when \<open>fn\<close> returns a promise-like object, the wrapper promise is cached and
    returned, and a call made while it is pending gets the same wrapper without running
    its function; when the promise is fulfilled the resumed closure stores the value,
    which later calls return without running their function; when the promise rejects
    the resumed closure deletes the entry and rethrows, and the next call with the key
    runs its function again;

  \<^item> when \<open>fn\<close> throws, the error propagates, the cache is as before, and the next
    call with the key runs its function again.
\<close>

theorem singleton_caches:
  "(cache s key = Some c \<longrightarrow> singleton key fn s = (Inr c, s)) \<and>
   (cache s key = None \<and> fst (fn (world s)) = Plain v \<longrightarrow>
      singleton key fn s
        = (Inr (Val v), s\<lparr>cache := (cache s)(key \<mapsto> Val v), world := snd (fn (world s))\<rparr>) \<and>
      singleton key g (snd (singleton key fn s)) = (Inr (Val v), snd (singleton key fn s))) \<and>
   (cache s key = None \<and> fst (fn (world s)) = PromiseLike p \<longrightarrow>
      singleton key fn s
        = (Inr (Wrapper (length (wrappers s))),
           s\<lparr>cache := (cache s)(key \<mapsto> Wrapper (length (wrappers s))),
             wrappers := wrappers s @ [key], world := snd (fn (world s))\<rparr>) \<and>
      fst (singleton key fn s) = Inr (Wrapper (length (wrappers s))) \<and>
      cache (snd (singleton key fn s)) key = Some (Wrapper (length (wrappers s))) \<and>
      world (snd (singleton key fn s)) = snd (fn (world s)) \<and>
      singleton key g (snd (singleton key fn s))
        = (Inr (Wrapper (length (wrappers s))), snd (singleton key fn s)) \<and>
      resume (length (wrappers s)) (Fulfilled v) (snd (singleton key fn s))
        = (Inr v, (snd (singleton key fn s))
             \<lparr>cache := (cache (snd (singleton key fn s)))(key \<mapsto> Val v)\<rparr>) \<and>
      singleton key g (snd (resume (length (wrappers s)) (Fulfilled v) (snd (singleton key fn s))))
        = (Inr (Val v), snd (resume (length (wrappers s)) (Fulfilled v) (snd (singleton key fn s)))) \<and>
      fst (resume (length (wrappers s)) (RejectedWith e) (snd (singleton key fn s))) = Inl e \<and>
      cache (snd (resume (length (wrappers s)) (RejectedWith e) (snd (singleton key fn s)))) key = None \<and>
      world (snd (singleton key g
          (snd (resume (length (wrappers s)) (RejectedWith e) (snd (singleton key fn s))))))
        = snd (g (snd (fn (world s))))) \<and>
   (cache s key = None \<and> fst (fn (world s)) = Throws e \<longrightarrow>
      singleton key fn s = (Inl e, s\<lparr>world := snd (fn (world s))\<rparr>) \<and>
      fst (singleton key fn s) = Inl e \<and> cache (snd (singleton key fn s)) = cache s \<and>
      world (snd (singleton key g (snd (singleton key fn s)))) = snd (g (snd (fn (world s)))))"
proof (intro conjI impI)
  assume "cache s key = Some c"
  then show "singleton key fn s = (Inr c, s)" by (simp add: singleton_def)
next
  assume a: "cache s key = None \<and> fst (fn (world s)) = Plain v"
  obtain w where fn: "fn (world s) = (Plain v, w)"
    using a by (cases "fn (world s)") auto
  show s1: "singleton key fn s
      = (Inr (Val v), s\<lparr>cache := (cache s)(key \<mapsto> Val v), world := snd (fn (world s))\<rparr>)"
    using a fn by (simp add: singleton_def)
  show "singleton key g (snd (singleton key fn s)) = (Inr (Val v), snd (singleton key fn s))"
    unfolding s1 by (simp add: singleton_def)
next
  assume a: "cache s key = None \<and> fst (fn (world s)) = PromiseLike p"
  obtain w where fn: "fn (world s) = (PromiseLike p, w)"
    using a by (cases "fn (world s)") auto
  let ?n = "length (wrappers s)"
  let ?s1 = "s\<lparr>cache := (cache s)(key \<mapsto> Wrapper ?n), wrappers := wrappers s @ [key], world := w\<rparr>"
  have s1: "singleton key fn s = (Inr (Wrapper ?n), ?s1)"
    using a fn by (simp add: singleton_def Let_def)
  have r: "resume ?n (RejectedWith e) ?s1 = (Inl e, ?s1\<lparr>cache := (cache ?s1)(key := None)\<rparr>)"
    by (simp add: resume_def)
  have f: "resume ?n (Fulfilled v) ?s1 = (Inr v, ?s1\<lparr>cache := (cache ?s1)(key \<mapsto> Val v)\<rparr>)"
    by (simp add: resume_def)
  show "singleton key fn s
      = (Inr (Wrapper ?n),
         s\<lparr>cache := (cache s)(key \<mapsto> Wrapper ?n), wrappers := wrappers s @ [key],
           world := snd (fn (world s))\<rparr>)"
    by (simp add: s1 fn)
  show "fst (singleton key fn s) = Inr (Wrapper ?n)" by (simp add: s1)
  show "cache (snd (singleton key fn s)) key = Some (Wrapper ?n)" by (simp add: s1)
  show "world (snd (singleton key fn s)) = snd (fn (world s))" by (simp add: s1 fn)
  show "singleton key g (snd (singleton key fn s)) = (Inr (Wrapper ?n), snd (singleton key fn s))"
    unfolding s1 by (simp add: singleton_def)
  show "resume ?n (Fulfilled v) (snd (singleton key fn s))
      = (Inr v, (snd (singleton key fn s))
           \<lparr>cache := (cache (snd (singleton key fn s)))(key \<mapsto> Val v)\<rparr>)"
    unfolding s1 using f by simp
  show "singleton key g (snd (resume ?n (Fulfilled v) (snd (singleton key fn s))))
      = (Inr (Val v), snd (resume ?n (Fulfilled v) (snd (singleton key fn s))))"
    unfolding s1 by (simp add: f singleton_def)
  show "fst (resume ?n (RejectedWith e) (snd (singleton key fn s))) = Inl e" by (simp add: s1 r)
  show "cache (snd (resume ?n (RejectedWith e) (snd (singleton key fn s)))) key = None"
    by (simp add: s1 r)
  show "world (snd (singleton key g (snd (resume ?n (RejectedWith e) (snd (singleton key fn s))))))
        = snd (g (snd (fn (world s))))"
    using singleton_miss_runs_fn [of "?s1\<lparr>cache := (cache ?s1)(key := None)\<rparr>" key g]
    by (simp add: s1 r fn)
next
  assume a: "cache s key = None \<and> fst (fn (world s)) = Throws e"
  obtain w where fn: "fn (world s) = (Throws e, w)"
    using a by (cases "fn (world s)") auto
  show s1: "singleton key fn s = (Inl e, s\<lparr>world := snd (fn (world s))\<rparr>)"
    using a fn by (simp add: singleton_def)
  show "fst (singleton key fn s) = Inl e" using a fn by (simp add: singleton_def)
  show "cache (snd (singleton key fn s)) = cache s" using a fn by (simp add: singleton_def)
  show "world (snd (singleton key g (snd (singleton key fn s)))) = snd (g (snd (fn (world s))))"
    using singleton_miss_runs_fn [of "s\<lparr>world := snd (fn (world s))\<rparr>" key g] a
    unfolding s1 by simp
qed

theorem singleton_caches_witness:
  "cache (singleton_init (0::nat)) ''k'' = (None :: nat cached option) \<and>
   singleton ''k'' (counting (Plain 7)) (singleton_init 0)
     = (Inr (Val 7), \<lparr>cache = [''k'' \<mapsto> Val 7], wrappers = [], world = 1\<rparr>) \<and>
   singleton ''k'' (counting (Plain 9)) \<lparr>cache = [''k'' \<mapsto> Val 7], wrappers = [], world = 1\<rparr>
     = (Inr (Val 7), \<lparr>cache = [''k'' \<mapsto> Val 7], wrappers = [], world = 1\<rparr>) \<and>
   singleton ''k'' (counting (PromiseLike 3)) (singleton_init 0)
     = (Inr (Wrapper 0), \<lparr>cache = [''k'' \<mapsto> Wrapper 0], wrappers = [''k''], world = 1\<rparr>) \<and>
   singleton ''k'' (counting (Plain 9))
       \<lparr>cache = [''k'' \<mapsto> Wrapper 0], wrappers = [''k''], world = 1\<rparr>
     = (Inr (Wrapper 0), \<lparr>cache = [''k'' \<mapsto> Wrapper 0], wrappers = [''k''], world = 1\<rparr>) \<and>
   singleton ''k'' (counting (Plain 9))
       (snd (resume 0 (Fulfilled 5 :: (nat, string) settled)
          \<lparr>cache = [''k'' \<mapsto> Wrapper 0], wrappers = [''k''], world = 1\<rparr>))
     = (Inr (Val 5), \<lparr>cache = [''k'' \<mapsto> Val 5], wrappers = [''k''], world = 1\<rparr>) \<and>
   world (snd (singleton ''k'' (counting (Plain 9))
      (snd (resume 0 (RejectedWith ''failed'')
         \<lparr>cache = [''k'' \<mapsto> Wrapper 0], wrappers = [''k''], world = 1\<rparr>)))) = 2 \<and>
   singleton ''k'' (counting (Throws ''bad'')) (singleton_init 0)
     = (Inl ''bad'', \<lparr>cache = Map.empty, wrappers = [], world = 1\<rparr>) \<and>
   world (snd (singleton ''k'' (counting (Plain 9))
      \<lparr>cache = Map.empty, wrappers = [], world = 1\<rparr>)) = 2"
proof -
  let ?s = "singleton_init (0::nat) :: (string, nat, nat) singleton_state"
  have h: "cache ?s ''k'' = None"
    "fst (counting (Plain 7) (world ?s)) = Plain 7"
    "fst (counting (PromiseLike 3) (world ?s)) = PromiseLike 3"
    "fst (counting (Throws ''bad'') (world ?s)) = Throws ''bad''"
    by (simp_all add: singleton_init_def counting_def)
  have plain: "singleton ''k'' (counting (Plain 7)) ?s
      = (Inr (Val 7), ?s\<lparr>cache := (cache ?s)(''k'' \<mapsto> Val 7),
           world := snd (counting (Plain 7) (world ?s))\<rparr>)"
    "singleton ''k'' (counting (Plain 9)) (snd (singleton ''k'' (counting (Plain 7)) ?s))
      = (Inr (Val 7), snd (singleton ''k'' (counting (Plain 7)) ?s))"
    using h singleton_caches [where s = ?s and key = "''k''" and c = "Val 0"
        and fn = "counting (Plain 7)" and v = 7 and g = "counting (Plain 9)" and p = 3
        and e = "''failed''"]
    by blast+
  have prom: "singleton ''k'' (counting (PromiseLike 3)) ?s
      = (Inr (Wrapper (length (wrappers ?s))),
         ?s\<lparr>cache := (cache ?s)(''k'' \<mapsto> Wrapper (length (wrappers ?s))),
           wrappers := wrappers ?s @ [''k''],
           world := snd (counting (PromiseLike 3) (world ?s))\<rparr>)"
    "singleton ''k'' (counting (Plain 9)) (snd (singleton ''k'' (counting (PromiseLike 3)) ?s))
      = (Inr (Wrapper (length (wrappers ?s))), snd (singleton ''k'' (counting (PromiseLike 3)) ?s))"
    "resume (length (wrappers ?s)) (Fulfilled 5 :: (nat, string) settled) (snd (singleton ''k'' (counting (PromiseLike 3)) ?s))
      = (Inr 5, (snd (singleton ''k'' (counting (PromiseLike 3)) ?s))
           \<lparr>cache := (cache (snd (singleton ''k'' (counting (PromiseLike 3)) ?s)))(''k'' \<mapsto> Val 5)\<rparr>)"
    "singleton ''k'' (counting (Plain 9))
        (snd (resume (length (wrappers ?s)) (Fulfilled 5 :: (nat, string) settled)
           (snd (singleton ''k'' (counting (PromiseLike 3)) ?s))))
      = (Inr (Val 5), snd (resume (length (wrappers ?s)) (Fulfilled 5 :: (nat, string) settled)
           (snd (singleton ''k'' (counting (PromiseLike 3)) ?s))))"
    "world (snd (singleton ''k'' (counting (Plain 9))
        (snd (resume (length (wrappers ?s)) (RejectedWith ''failed'')
           (snd (singleton ''k'' (counting (PromiseLike 3)) ?s))))))
      = snd (counting (Plain 9) (snd (counting (PromiseLike 3) (world ?s))))"
    using h singleton_caches [where s = ?s and key = "''k''" and c = "Val 0"
        and fn = "counting (PromiseLike 3)" and v = 5 and g = "counting (Plain 9)" and p = 3
        and e = "''failed''"]
    by blast+
  have thr: "singleton ''k'' (counting (Throws ''bad'')) ?s
      = (Inl ''bad'', ?s\<lparr>world := snd (counting (Throws ''bad'') (world ?s))\<rparr>)"
    "world (snd (singleton ''k'' (counting (Plain 9))
        (snd (singleton ''k'' (counting (Throws ''bad'')) ?s))))
      = snd (counting (Plain 9) (snd (counting (Throws ''bad'') (world ?s))))"
    using h singleton_caches [where s = ?s and key = "''k''" and c = "Val 0"
        and fn = "counting (Throws ''bad'')" and v = 5 and g = "counting (Plain 9)" and p = 3
        and e = "''bad''"]
    by blast+
  have p1: "singleton ''k'' (counting (Plain 7)) ?s
      = (Inr (Val 7), \<lparr>cache = [''k'' \<mapsto> Val 7], wrappers = [], world = 1\<rparr>)"
    unfolding plain(1) by (simp add: singleton_init_def counting_def)
  have q1: "singleton ''k'' (counting (PromiseLike 3)) ?s
      = (Inr (Wrapper 0), \<lparr>cache = [''k'' \<mapsto> Wrapper 0], wrappers = [''k''], world = 1\<rparr>)"
    unfolding prom(1) by (simp add: singleton_init_def counting_def)
  have t1: "singleton ''k'' (counting (Throws ''bad'')) ?s
      = (Inl ''bad'', \<lparr>cache = Map.empty, wrappers = [], world = 1\<rparr>)"
    unfolding thr(1) by (simp add: singleton_init_def counting_def)
  have l: "length (wrappers ?s) = 0" by (simp add: singleton_init_def)
  have r5: "snd (resume 0 (Fulfilled 5 :: (nat, string) settled)
        \<lparr>cache = [''k'' \<mapsto> Wrapper 0], wrappers = [''k''], world = (1::nat)\<rparr>)
      = \<lparr>cache = [''k'' \<mapsto> Val 5], wrappers = [''k''], world = 1\<rparr>"
    by (simp add: resume_def)
  have c2: "snd (counting (Plain 9) (snd (counting (PromiseLike 3) (world ?s)))) = 2"
    "snd (counting (Plain 9) (snd (counting (Throws ''bad'') (world ?s)))) = 2"
    by (simp_all add: singleton_init_def counting_def)
  show ?thesis
    using h(1) p1 plain(2) [unfolded p1] q1 prom(2) [unfolded q1 l] prom(4) [unfolded q1 l r5]
      prom(5) [unfolded q1 l c2] t1 thr(2) [unfolded t1 c2] r5
    by simp
qed

section \<open>Properties of the instance form\<close>

lemma reader_running_eq:
  "reader_running =
     \<lparr>items = [QueueItemR True 1], promises = [], CONTEXT = Some 1,
      contexts = [\<lparr>queue = [0], lockType = None\<rparr>, \<lparr>queue = [], lockType = Some R\<rparr>],
      invocations = [\<lparr>captured = 0, release = NextR 0 0, item = 0, stepPromise = None,
         installs = R, wrapped = UserMethod, phase = Running\<rparr>],
      manuals = []\<rparr>"
  by (simp add: reader_running_def begin_body_def asyncmuxReadonlyClassMethod_def
      initializeInstance_def new_owner_def new_AsyncmuxContext_def latest_def push_new_def Let_def)

lemma writer_waiting_eq:
  "writer_waiting =
     \<lparr>items = [QueueItemW True [Next 0 0]], promises = [], CONTEXT = Some 0,
      contexts = [\<lparr>queue = [0], lockType = None\<rparr>],
      invocations = [\<lparr>captured = 0, release = Next 0 0, item = 0, stepPromise = None,
         installs = W, wrapped = UserMethod, phase = Waiting\<rparr>],
      manuals = []\<rparr>"
  by (simp add: writer_waiting_def asyncmuxClassMethod_def
      initializeInstance_def new_owner_def new_AsyncmuxContext_def latest_def push_new_def Let_def)

lemma writer_running_eq:
  "writer_running =
     \<lparr>items = [QueueItemW True [Next 0 0]], promises = [], CONTEXT = Some 1,
      contexts = [\<lparr>queue = [0], lockType = None\<rparr>, \<lparr>queue = [], lockType = Some W\<rparr>],
      invocations = [\<lparr>captured = 0, release = Next 0 0, item = 0, stepPromise = None,
         installs = W, wrapped = UserMethod, phase = Running\<rparr>],
      manuals = []\<rparr>"
  by (simp add: writer_running_def writer_waiting_eq begin_body_def new_AsyncmuxContext_def Let_def)

text \<open>
  C2. When the context found in \<open>this[CONTEXT]\<close> has lock type \<open>R\<close>, the wrapped writer
  method rejects with \<open>LockEscalationError\<close> and the state is the one before the call. The
  manual form (with a signal that is not aborted) fails with the same error, and the
  items, step promises, contexts and calls in flight are as before.
\<close>

theorem escalation_leaves_queue:
  assumes "CONTEXT s = Some c" and "lockType (contexts s ! c) = Some R"
  shows "asyncmuxClassMethod m s = (Inl LockEscalationError, s) \<and>
    (throwIfAborted options = None \<longrightarrow>
       fst (manualLock asyncmuxClassMethod options s) = Inl LockEscalationError \<and>
       items (snd (manualLock asyncmuxClassMethod options s)) = items s \<and>
       promises (snd (manualLock asyncmuxClassMethod options s)) = promises s \<and>
       contexts (snd (manualLock asyncmuxClassMethod options s)) = contexts s \<and>
       CONTEXT (snd (manualLock asyncmuxClassMethod options s)) = CONTEXT s \<and>
       invocations (snd (manualLock asyncmuxClassMethod options s)) = invocations s)"
proof -
  have direct: "asyncmuxClassMethod m' s' = (Inl LockEscalationError, s')"
    if "CONTEXT s' = Some c" "lockType (contexts s' ! c) = Some R" for m' s'
    using that by (simp add: asyncmuxClassMethod_def)
  let ?s1 = "s\<lparr>manuals := manuals s @
      [\<lparr>listening = (options \<noteq> NoSignal), result = Pending, unlockPromise = False\<rparr>]\<rparr>"
  have init: "initializeInstance ?s1 = ?s1"
    using assms by (simp add: initializeInstance_def)
  have inner: "asyncmuxClassMethod (WaitForUnlock (length (manuals s))) ?s1
      = (Inl LockEscalationError, ?s1)"
    using assms by (intro direct) simp_all
  show ?thesis
    using assms direct [of s m]
    by (simp add: manualLock_def Let_def init inner)
qed

theorem escalation_leaves_queue_witness:
  "asyncmuxClassMethod UserMethod reader_running = (Inl LockEscalationError, reader_running) \<and>
   fst (manualLock asyncmuxClassMethod NoSignal reader_running) = Inl LockEscalationError \<and>
   contexts (snd (manualLock asyncmuxClassMethod NoSignal reader_running))
     = [\<lparr>queue = [0], lockType = None\<rparr>, \<lparr>queue = [], lockType = Some R\<rparr>] \<and>
   items (snd (manualLock asyncmuxClassMethod NoSignal reader_running)) = [QueueItemR True 1]"
  using escalation_leaves_queue [of reader_running 1 UserMethod NoSignal]
  by (simp add: reader_running_eq)

lemma shift_start_frame:
  "CONTEXT (shift_start c s) = CONTEXT s"
  "invocations (shift_start c s) = invocations s"
  "manuals (shift_start c s) = manuals s"
  "promises (shift_start c s) = promises s"
  "length (items (shift_start c s)) = length (items s)"
  "length (contexts (shift_start c s)) = length (contexts s)"
  by (simp_all add: shift_start_def Let_def split: list.splits)

lemma call_frame:
  "CONTEXT (call f s) = CONTEXT s \<and> invocations (call f s) = invocations s \<and>
   manuals (call f s) = manuals s \<and> length (items (call f s)) = length (items s) \<and>
   length (contexts (call f s)) = length (contexts s)"
proof (induction f s rule: call.induct)
  case (1 p s)
  show ?case by simp
next
  case (2 r c s)
  show ?case by (simp add: Let_def shift_start_frame)
next
  case (3 w c s)
  show ?case
  proof (cases "w < length (items s)")
    case False
    then show ?thesis by simp
  next
    case True
    show ?thesis
    proof (cases "steps (items s ! w)")
      case Nil
      with True show ?thesis by (simp add: shift_start_frame)
    next
      case (Cons step rest)
      with True 3 show ?thesis by simp
    qed
  qed
qed

lemma shift_start_contexts:
  "contexts (shift_start c s) = (contexts s)[c := (contexts s ! c)\<lparr>queue := tl (queue (contexts s ! c))\<rparr>]"
  by (simp add: shift_start_def Let_def split: list.splits)

lemma shift_start_shifts:
  assumes "c' < length (contexts s)" and "contexts t = contexts s"
  shows "lockType (contexts (shift_start c t) ! c') = lockType (contexts s ! c') \<and>
    (queue (contexts (shift_start c t) ! c') = queue (contexts s ! c') \<or>
     queue (contexts (shift_start c t) ! c') = tl (queue (contexts s ! c')))"
  using assms by (cases "c' = c") (simp_all add: shift_start_contexts)

lemma call_shifts:
  "c' < length (contexts s) \<Longrightarrow>
   lockType (contexts (call f s) ! c') = lockType (contexts s ! c') \<and>
   (queue (contexts (call f s) ! c') = queue (contexts s ! c') \<or>
    queue (contexts (call f s) ! c') = tl (queue (contexts s ! c')))"
proof (induction f s rule: call.induct)
  case (1 p s)
  show ?case by simp
next
  case (2 r c s)
  then show ?case
    using shift_start_shifts [of c' s "s\<lparr>items := (items s)[r := count_add (- 1) (items s ! r)]\<rparr>" c]
    by (simp add: Let_def)
next
  case (3 w c s)
  show ?case
  proof (cases "w < length (items s)")
    case False
    then show ?thesis by simp
  next
    case True
    show ?thesis
    proof (cases "steps (items s ! w)")
      case Nil
      with True 3(2) show ?thesis using shift_start_shifts [of c' s s c] by simp
    next
      case (Cons step rest)
      with True 3 show ?thesis by simp
    qed
  qed
qed

lemma asyncmuxClassMethod_contexts:
  "contexts (snd (asyncmuxClassMethod m s)) = contexts s \<or>
   (\<exists>c. CONTEXT s = Some c \<and>
      contexts (snd (asyncmuxClassMethod m s))
        = (contexts s)[c := (contexts s ! c)\<lparr>queue := queue (contexts s ! c) @ [length (items s)]\<rparr>])"
  by (simp add: asyncmuxClassMethod_def push_new_def Let_def split_def
      split: option.splits tag.splits)

lemma asyncmuxReadonlyClassMethod_contexts:
  "contexts (snd (asyncmuxReadonlyClassMethod m s)) = contexts s \<or>
   (\<exists>c. CONTEXT s = Some c \<and>
      contexts (snd (asyncmuxReadonlyClassMethod m s))
        = (contexts s)[c := (contexts s ! c)\<lparr>queue := queue (contexts s ! c) @ [length (items s)]\<rparr>])"
  by (simp add: asyncmuxReadonlyClassMethod_def push_new_def Let_def split_def
      split: option.splits tag.splits)

lemma asyncmuxClassMethod_CONTEXT: "CONTEXT (snd (asyncmuxClassMethod m s)) = CONTEXT s"
  by (simp add: asyncmuxClassMethod_def push_new_def Let_def split_def
      split: option.splits tag.splits)

lemma asyncmuxReadonlyClassMethod_CONTEXT:
  "CONTEXT (snd (asyncmuxReadonlyClassMethod m s)) = CONTEXT s"
  by (simp add: asyncmuxReadonlyClassMethod_def push_new_def Let_def split_def
      split: option.splits tag.splits)

lemma asyncmuxClassMethod_captured:
  "fst (asyncmuxClassMethod m s) = Inr i \<Longrightarrow>
   i = length (invocations s) \<and>
   length (invocations (snd (asyncmuxClassMethod m s))) = Suc (length (invocations s)) \<and>
   CONTEXT s = Some (captured (invocations (snd (asyncmuxClassMethod m s)) ! i))"
  by (auto simp: asyncmuxClassMethod_def push_new_def Let_def split_def
      split: option.splits tag.splits if_splits)

lemma asyncmuxReadonlyClassMethod_captured:
  "fst (asyncmuxReadonlyClassMethod m s) = Inr i \<Longrightarrow>
   i = length (invocations s) \<and>
   length (invocations (snd (asyncmuxReadonlyClassMethod m s))) = Suc (length (invocations s)) \<and>
   CONTEXT s = Some (captured (invocations (snd (asyncmuxReadonlyClassMethod m s)) ! i))"
  by (auto simp: asyncmuxReadonlyClassMethod_def push_new_def Let_def split_def
      split: option.splits tag.splits if_splits)

lemma pushed_queue:
  assumes "c < length cs"
    and "cs' = cs \<or> (\<exists>c'. cur = Some c' \<and> cs' = cs[c' := (cs ! c')\<lparr>queue := queue (cs ! c') @ [n]\<rparr>])"
  shows "c < length cs' \<and> lockType (cs' ! c) = lockType (cs ! c) \<and>
    (queue (cs' ! c) = queue (cs ! c) \<or> cur = Some c \<and> queue (cs' ! c) = queue (cs ! c) @ [n])"
proof (cases "cs' = cs")
  case True
  then show ?thesis using assms(1) by simp
next
  case False
  then obtain c' where c': "cur = Some c'"
      "cs' = cs[c' := (cs ! c')\<lparr>queue := queue (cs ! c') @ [n]\<rparr>]"
    using assms(2) by blast
  show ?thesis using assms(1) c' by (cases "c' = c") simp_all
qed

lemma manualLock_contexts:
  assumes d: "\<And>m s. contexts (snd (d m s)) = contexts s \<or>
      (\<exists>c. CONTEXT s = Some c \<and>
         contexts (snd (d m s))
           = (contexts s)[c := (contexts s ! c)\<lparr>queue := queue (contexts s ! c) @ [length (items s)]\<rparr>])"
    and dc: "\<And>m s. CONTEXT (snd (d m s)) = CONTEXT s"
    and c: "c < length (contexts s)"
  shows "c < length (contexts (snd (manualLock d options s))) \<and>
    lockType (contexts (snd (manualLock d options s)) ! c) = lockType (contexts s ! c) \<and>
    (queue (contexts (snd (manualLock d options s)) ! c) = queue (contexts s ! c) \<or>
     CONTEXT s = Some c \<and>
     queue (contexts (snd (manualLock d options s)) ! c) = queue (contexts s ! c) @ [length (items s)])"
proof -
  let ?s1 = "s\<lparr>manuals := manuals s @
      [\<lparr>listening = (options \<noteq> NoSignal), result = Pending, unlockPromise = False\<rparr>]\<rparr>"
  let ?s2 = "initializeInstance ?s1"
  let ?m = "WaitForUnlock (length (manuals s))"
  have cs: "contexts (snd (manualLock d options s)) = contexts s \<or>
      contexts (snd (manualLock d options s)) = contexts (snd (d ?m ?s2))"
    by (simp add: manualLock_def Let_def split_def split: option.splits sum.splits)
  have it: "length (items ?s2) = length (items s)"
    by (simp add: initializeInstance_def split: option.splits)
  have c2: "c < length (contexts ?s2)" "lockType (contexts ?s2 ! c) = lockType (contexts s ! c)"
    "queue (contexts ?s2 ! c) = queue (contexts s ! c)"
    using c by (simp_all add: initializeInstance_def nth_append split: option.splits)
  have cur: "CONTEXT ?s2 = Some c \<Longrightarrow> CONTEXT s = Some c"
    using c by (auto simp: initializeInstance_def split: option.splits)
  have "c < length (contexts (snd (d ?m ?s2))) \<and>
      lockType (contexts (snd (d ?m ?s2)) ! c) = lockType (contexts ?s2 ! c) \<and>
      (queue (contexts (snd (d ?m ?s2)) ! c) = queue (contexts ?s2 ! c) \<or>
       CONTEXT ?s2 = Some c \<and>
       queue (contexts (snd (d ?m ?s2)) ! c) = queue (contexts ?s2 ! c) @ [length (items ?s2)])"
    using pushed_queue [OF c2(1) d [of ?m ?s2]] .
  then show ?thesis
    using cs c c2 cur it by auto
qed

lemma manualLock_CONTEXT:
  assumes dc: "\<And>m s. CONTEXT (snd (d m s)) = CONTEXT s" and "CONTEXT s \<noteq> None"
  shows "CONTEXT (snd (manualLock d options s)) = CONTEXT s"
  using assms(2)
  by (auto simp: manualLock_def Let_def split_def dc initializeInstance_def
      split: option.splits sum.splits)

lemma exec_contexts:
  assumes c: "c < length (contexts s)"
  shows "c < length (contexts (exec e s)) \<and>
    lockType (contexts (exec e s) ! c) = lockType (contexts s ! c) \<and>
    (queue (contexts (exec e s) ! c) = queue (contexts s ! c) \<or>
     is_arrival e \<and> CONTEXT s = Some c \<and>
       queue (contexts (exec e s) ! c) = queue (contexts s ! c) @ [length (items s)] \<or>
     (\<exists>j. e = Finish j) \<and> queue (contexts (exec e s) ! c) = tl (queue (contexts s ! c)))"
proof (cases e)
  case Initialize
  then show ?thesis using c by (simp add: initializeInstance_def nth_append split: option.splits)
next
  case Write
  then show ?thesis
    using pushed_queue [OF c asyncmuxClassMethod_contexts [of UserMethod s]]
    by (simp add: is_arrival_def)
next
  case Read
  then show ?thesis
    using pushed_queue [OF c asyncmuxReadonlyClassMethod_contexts [of UserMethod s]]
    by (simp add: is_arrival_def)
next
  case (ManualWrite options)
  then show ?thesis
    using manualLock_contexts [of asyncmuxClassMethod c s options,
        OF asyncmuxClassMethod_contexts asyncmuxClassMethod_CONTEXT c]
    by (simp add: is_arrival_def)
next
  case (ManualRead options)
  then show ?thesis
    using manualLock_contexts [of asyncmuxReadonlyClassMethod c s options,
        OF asyncmuxReadonlyClassMethod_contexts asyncmuxReadonlyClassMethod_CONTEXT c]
    by (simp add: is_arrival_def)
next
  case (Begin i)
  then show ?thesis using c by (simp add: begin_body_def Let_def nth_append split: body.splits)
next
  case (Finish i)
  let ?t = "s\<lparr>CONTEXT := Some (captured (invocations s ! i))\<rparr>"
  have "c < length (contexts ?t)" using c by simp
  from call_shifts [OF this, of "release (invocations s ! i)"] Finish show ?thesis
    using c call_frame [of "release (invocations s ! i)" ?t]
    by (auto simp: finish_body_def Let_def simp del: call.simps)
next
  case (OnAbort m r)
  then show ?thesis using c by (simp add: onAbort_def)
next
  case (Unlock m)
  then show ?thesis
    using c by (simp add: unlock_def manual_handle_def new_AsyncmuxLock_def resolve_unlock_def)
qed

lemma exec_CONTEXT:
  assumes "\<And>j. e \<noteq> Begin j" and "\<And>j. e \<noteq> Finish j" and "CONTEXT s \<noteq> None"
  shows "CONTEXT (exec e s) = CONTEXT s"
proof (cases e)
  case Initialize
  then show ?thesis using assms(3) by (auto simp: initializeInstance_def)
next
  case (ManualWrite options)
  then show ?thesis
    using manualLock_CONTEXT [of asyncmuxClassMethod s options,
        OF asyncmuxClassMethod_CONTEXT assms(3)]
    by simp
next
  case (ManualRead options)
  then show ?thesis
    using manualLock_CONTEXT [of asyncmuxReadonlyClassMethod s options,
        OF asyncmuxReadonlyClassMethod_CONTEXT assms(3)]
    by simp
next
  case (OnAbort m r)
  then show ?thesis by (simp add: onAbort_def)
next
  case (Unlock m)
  then show ?thesis
    by (simp add: unlock_def manual_handle_def new_AsyncmuxLock_def resolve_unlock_def)
qed (use assms in \<open>simp_all add: asyncmuxClassMethod_CONTEXT asyncmuxReadonlyClassMethod_CONTEXT\<close>)

lemma readers_overlap_eq:
  "readers_overlap =
     \<lparr>items = [QueueItemR True 2], promises = [], CONTEXT = Some 2,
      contexts = [\<lparr>queue = [0], lockType = None\<rparr>, \<lparr>queue = [], lockType = Some R\<rparr>,
         \<lparr>queue = [], lockType = Some R\<rparr>],
      invocations =
        [\<lparr>captured = 0, release = NextR 0 0, item = 0, stepPromise = None,
           installs = R, wrapped = UserMethod, phase = Running\<rparr>,
         \<lparr>captured = 0, release = NextR 0 0, item = 0, stepPromise = None,
           installs = R, wrapped = UserMethod, phase = Running\<rparr>],
      manuals = []\<rparr>"
  by code_simp

text \<open>
  C8, as the code has it. \<open>initializeInstance\<close> creates the context only when the owner
  has none and leaves an existing one in place. The synchronous part of an acquisition
  does not change \<open>this[CONTEXT]\<close>, and the call it starts keeps the context it read
  (\<open>captured\<close>). But \<open>this[CONTEXT]\<close> does not keep its identity: the \<open>then\<close> callback of
  every acquisition replaces it by a fresh context tagged with the lock type, and the
  \<open>finally\<close> callback sets it to the context the acquisition read when it arrived,
  whatever it was and whichever methods still run. No other event changes it once it is
  set. A context object, once created, stays: its \<open>lockType\<close> never changes, and its
  queue changes only by an arrival that reads this context, which may push the one item
  it creates, and by a \<open>finally\<close> callback, which may shift it.
\<close>

theorem context_swapped_while_running:
  "(CONTEXT s = None \<longrightarrow>
      CONTEXT (initializeInstance s) = Some (length (contexts s)) \<and>
      contexts (initializeInstance s) = contexts s @ [new_AsyncmuxContext None]) \<and>
   (CONTEXT s \<noteq> None \<longrightarrow> initializeInstance s = s) \<and>
   CONTEXT (snd (asyncmuxClassMethod m s)) = CONTEXT s \<and>
   CONTEXT (snd (asyncmuxReadonlyClassMethod m s)) = CONTEXT s \<and>
   (fst (asyncmuxClassMethod m s) = Inr i \<longrightarrow>
      CONTEXT s = Some (captured (invocations (snd (asyncmuxClassMethod m s)) ! i))) \<and>
   (fst (asyncmuxReadonlyClassMethod m s) = Inr i \<longrightarrow>
      CONTEXT s = Some (captured (invocations (snd (asyncmuxReadonlyClassMethod m s)) ! i))) \<and>
   CONTEXT (begin_body i s) = Some (length (contexts s)) \<and>
   contexts (begin_body i s)
     = contexts s @ [new_AsyncmuxContext (Some (installs (invocations s ! i)))] \<and>
   CONTEXT (finish_body i s) = Some (captured (invocations s ! i)) \<and>
   (CONTEXT s \<noteq> None \<and> (\<forall>j. e \<noteq> Begin j \<and> e \<noteq> Finish j) \<longrightarrow>
      CONTEXT (exec e s) = CONTEXT s) \<and>
   (c < length (contexts s) \<longrightarrow>
      c < length (contexts (exec e s)) \<and>
      lockType (contexts (exec e s) ! c) = lockType (contexts s ! c) \<and>
      (queue (contexts (exec e s) ! c) = queue (contexts s ! c) \<or>
       is_arrival e \<and> CONTEXT s = Some c \<and>
         queue (contexts (exec e s) ! c) = queue (contexts s ! c) @ [length (items s)] \<or>
       (\<exists>j. e = Finish j) \<and> queue (contexts (exec e s) ! c) = tl (queue (contexts s ! c))))"
proof (intro conjI impI)
  show "CONTEXT (snd (asyncmuxClassMethod m s)) = CONTEXT s"
    by (rule asyncmuxClassMethod_CONTEXT)
  show "CONTEXT (snd (asyncmuxReadonlyClassMethod m s)) = CONTEXT s"
    by (rule asyncmuxReadonlyClassMethod_CONTEXT)
  show "CONTEXT s = Some (captured (invocations (snd (asyncmuxClassMethod m s)) ! i))"
    if "fst (asyncmuxClassMethod m s) = Inr i"
    using asyncmuxClassMethod_captured [OF that] by simp
  show "CONTEXT s = Some (captured (invocations (snd (asyncmuxReadonlyClassMethod m s)) ! i))"
    if "fst (asyncmuxReadonlyClassMethod m s) = Inr i"
    using asyncmuxReadonlyClassMethod_captured [OF that] by simp
  show "CONTEXT (begin_body i s) = Some (length (contexts s))"
    by (simp add: begin_body_def Let_def split: body.splits)
  show "contexts (begin_body i s)
     = contexts s @ [new_AsyncmuxContext (Some (installs (invocations s ! i)))]"
    by (simp add: begin_body_def Let_def split: body.splits)
  show "CONTEXT (finish_body i s) = Some (captured (invocations s ! i))"
    by (simp add: finish_body_def Let_def call_frame)
  show "CONTEXT (exec e s) = CONTEXT s"
    if "CONTEXT s \<noteq> None \<and> (\<forall>j. e \<noteq> Begin j \<and> e \<noteq> Finish j)"
    using exec_CONTEXT [of e s] that by blast
  assume c: "c < length (contexts s)"
  show "c < length (contexts (exec e s))"
    "lockType (contexts (exec e s) ! c) = lockType (contexts s ! c)"
    "queue (contexts (exec e s) ! c) = queue (contexts s ! c) \<or>
       is_arrival e \<and> CONTEXT s = Some c \<and>
         queue (contexts (exec e s) ! c) = queue (contexts s ! c) @ [length (items s)] \<or>
       (\<exists>j. e = Finish j) \<and> queue (contexts (exec e s) ! c) = tl (queue (contexts s ! c))"
    using exec_contexts [OF c, of e] by blast+
qed (auto simp: initializeInstance_def)

theorem context_swapped_while_running_witness:
  "CONTEXT (initializeInstance new_owner) = Some 0 \<and>
   initializeInstance writer_waiting = writer_waiting \<and>
   CONTEXT writer_waiting = Some 0 \<and>
   CONTEXT (begin_body 0 writer_waiting) = Some 1 \<and>
   contexts (begin_body 0 writer_waiting)
     = [\<lparr>queue = [0], lockType = None\<rparr>, \<lparr>queue = [], lockType = Some W\<rparr>] \<and>
   CONTEXT (finish_body 0 writer_running) = Some 0 \<and>
   run_ok [Initialize, Read, Read, Begin 0, Begin 1, Finish 1] new_owner \<and>
   CONTEXT readers_overlap = Some 2 \<and>
   phase (invocations readers_overlap ! 0) = Running \<and>
   CONTEXT (finish_body 1 readers_overlap) = Some 0 \<and>
   CONTEXT (exec Write (finish_body 1 readers_overlap)) = Some 0 \<and>
   lockType (contexts (exec (Finish 1) readers_overlap) ! 0) = None \<and>
   queue (contexts (exec (Finish 1) readers_overlap) ! 0) = [0]"
proof -
  have r: "run_ok [Initialize, Read, Read, Begin 0, Begin 1, Finish 1] new_owner"
    by code_simp
  have q: "queue (contexts (exec (Finish 1) readers_overlap) ! 0) \<noteq> tl [0]"
    by code_simp
  have n: "CONTEXT (finish_body 1 readers_overlap) \<noteq> None" by code_simp
  show ?thesis
    using r q n
      context_swapped_while_running [of new_owner UserMethod 0 Write 0]
      context_swapped_while_running [of writer_waiting UserMethod 0 Write 0]
      context_swapped_while_running [of writer_running UserMethod 0 Write 0]
      context_swapped_while_running [of readers_overlap UserMethod 1 "Finish 1" 0]
      context_swapped_while_running [of "finish_body 1 readers_overlap" UserMethod 1 Write 0]
    by (simp add: writer_waiting_eq writer_running_eq new_owner_def new_AsyncmuxContext_def
        readers_overlap_eq is_arrival_def)
qed

text \<open>
  C8 as claimed fails: once the first writer's method runs, \<open>this[CONTEXT]\<close> is another
  context object, and a writer arriving then reads that one.
\<close>

theorem context_identity_counterexample:
  "CONTEXT writer_waiting = Some 0 \<and> can_begin 0 writer_waiting \<and>
   CONTEXT (begin_body 0 writer_waiting) \<noteq> CONTEXT writer_waiting \<and>
   captured (invocations (snd (asyncmuxClassMethod UserMethod (begin_body 0 writer_waiting))) ! 1)
     \<noteq> captured (invocations writer_waiting ! 0)"
  by (simp add: writer_waiting_eq can_begin_def is_ready_def begin_body_def Let_def
      asyncmuxClassMethod_def new_AsyncmuxContext_def latest_def push_new_def)


section \<open>Properties of the keyed form\<close>

lemma shift_queue_frame:
  "acquisitions (shift_queue q key s) = acquisitions s"
  "thens (shift_queue q key s) = thens s"
  "promises (shift_queue q key s) = promises s"
  "length (items (shift_queue q key s)) = length (items s)"
  "length (queues (shift_queue q key s)) = length (queues s)"
  by (simp_all add: shift_queue_def Let_def split: list.splits option.splits)

lemma kcall_frame:
  "acquisitions (kcall f s) = acquisitions s \<and> thens (kcall f s) = thens s \<and>
   length (items (kcall f s)) = length (items s) \<and>
   length (queues (kcall f s)) = length (queues s)"
proof (induction f s rule: kcall.induct)
  case (1 p s)
  show ?case by simp
next
  case (2 q k s)
  show ?case by (simp add: shift_queue_frame)
next
  case (3 r q key s)
  show ?case by (simp add: Let_def shift_queue_frame)
next
  case (4 w q key s)
  show ?case
  proof (cases "w < length (items s)")
    case False
    then show ?thesis by simp
  next
    case True
    show ?thesis
    proof (cases "steps (items s ! w)")
      case Nil
      with True show ?thesis by (simp add: shift_queue_frame)
    next
      case (Cons step rest)
      with True 4 show ?thesis by simp
    qed
  qed
qed

lemma fold_kcall_frame:
  "acquisitions (fold kcall fs s) = acquisitions s \<and> thens (fold kcall fs s) = thens s"
  by (induction fs arbitrary: s) (simp_all add: kcall_frame)

lemma getQueueEntries_frame:
  "acquisitions (snd (getQueueEntries key s)) = acquisitions s"
  by (simp add: getQueueEntries_def queue_push_def Let_def split_def split: option.splits)

lemma lock_entry_frame: "acquisitions (snd (lock_entry e s)) = acquisitions s"
  by (simp add: lock_entry_def queue_push_def Let_def split_def split: option.splits)

lemma rLock_entry_frame: "acquisitions (snd (rLock_entry e s)) = acquisitions s"
  by (simp add: rLock_entry_def queue_push_def Let_def split_def split: option.splits)

lemma for_entries_frame:
  assumes "\<And>e s. acquisitions (snd (f e s)) = acquisitions s"
  shows "acquisitions (snd (for_entries f es s)) = acquisitions s"
proof (induction es arbitrary: s)
  case Nil
  show ?case by simp
next
  case (Cons e es)
  obtain x s1 where f: "f e s = (x, s1)" by (cases "f e s")
  obtain xs s2 where r: "for_entries f es s1 = (xs, s2)" by (cases "for_entries f es s1")
  have "acquisitions s1 = acquisitions s" using assms [of e s] f by simp
  moreover have "acquisitions s2 = acquisitions s1" using Cons [of s1] r by simp
  ultimately show ?case by (simp add: f r)
qed

lemma acquire_fails:
  assumes "fst (acquire f key options s) = Inl e"
  shows "\<exists>r. options = Signal (Some r) \<and> e = AbortReason r"
proof (cases "throwIfAborted options")
  case None
  then have "\<exists>a. fst (acquire f key options s) = Inr a"
    by (simp add: acquire_def Let_def split_def)
  with assms show ?thesis by auto
next
  case (Some e')
  then have "\<exists>r. options = Signal (Some r) \<and> e' = AbortReason r"
    by (cases options rule: throwIfAborted.cases) simp_all
  moreover have "fst (acquire f key options s) = Inl e'"
    using Some by (simp add: acquire_def)
  ultimately show ?thesis using assms by auto
qed

lemma acquire_acquisitions:
  assumes "\<And>e s. acquisitions (snd (f e s)) = acquisitions s"
  shows "\<exists>fs rs. acquisitions (snd (acquire f key options s)) =
    (if throwIfAborted options = None
     then acquisitions s @ [\<lparr>listening = (options \<noteq> NoSignal), result = Pending,
        unlockPromise = False, nextFuncList = fs, readyPromiseList = rs, finalized = False\<rparr>]
     else acquisitions s)"
proof (cases "throwIfAborted options")
  case (Some e)
  then show ?thesis by (simp add: acquire_def)
next
  case None
  obtain es s1 where g: "getQueueEntries key s = (es, s1)" by (cases "getQueueEntries key s")
  obtain parts s2 where p: "for_entries f es s1 = (parts, s2)" by (cases "for_entries f es s1")
  have "acquisitions s1 = acquisitions s" using getQueueEntries_frame [of key s] g by simp
  moreover have "acquisitions s2 = acquisitions s1"
    using for_entries_frame [of f es s1, OF assms] p by simp
  ultimately show ?thesis using None by (simp add: acquire_def g p)
qed

lemma rejections_are_aborts_append:
  assumes "rejections_are_aborts s" and "acquisitions t = acquisitions s @ [x]" and "result x = Pending"
  shows "rejections_are_aborts t"
  unfolding rejections_are_aborts_def
proof (intro allI impI)
  fix a e
  assume a: "a < length (acquisitions t)" and r: "result (acquisitions t ! a) = Rejected e"
  show "listening (acquisitions t ! a) \<and> (\<exists>r. e = AbortReason r)"
  proof (cases "a < length (acquisitions s)")
    case True
    then show ?thesis using assms(1,2) r by (simp add: rejections_are_aborts_def nth_append)
  next
    case False
    then have "acquisitions t ! a = x" using a assms(2) by (simp add: nth_append)
    then show ?thesis using r assms(3) by simp
  qed
qed

lemma rejections_are_aborts_same:
  "rejections_are_aborts s \<Longrightarrow> acquisitions t = acquisitions s \<Longrightarrow> rejections_are_aborts t"
  by (simp add: rejections_are_aborts_def)

lemma rejections_are_aborts_acquire:
  assumes "\<And>e s. acquisitions (snd (f e s)) = acquisitions s" and "rejections_are_aborts s"
  shows "rejections_are_aborts (snd (acquire f key options s))"
proof -
  obtain fs rs where a: "acquisitions (snd (acquire f key options s)) =
    (if throwIfAborted options = None
     then acquisitions s @ [\<lparr>listening = (options \<noteq> NoSignal), result = Pending,
        unlockPromise = False, nextFuncList = fs, readyPromiseList = rs, finalized = False\<rparr>]
     else acquisitions s)"
    using acquire_acquisitions [of f key options s, OF assms(1)] by blast
  show ?thesis
  proof (cases "throwIfAborted options = None")
    case True
    then show ?thesis using a assms(2) by (auto elim: rejections_are_aborts_append)
  next
    case False
    then show ?thesis using a assms(2) by (auto elim: rejections_are_aborts_same)
  qed
qed

lemma rejections_are_aborts_update:
  assumes "rejections_are_aborts s"
    and "acquisitions t = (acquisitions s)[a := g (acquisitions s ! a)]"
    and "\<And>y e. result (g y) = Rejected e \<Longrightarrow>
      (listening y \<and> listening (g y) \<and> (\<exists>r. e = AbortReason r)) \<or>
      (result y = Rejected e \<and> listening (g y) = listening y)"
  shows "rejections_are_aborts t"
  unfolding rejections_are_aborts_def
proof (intro allI impI)
  fix b e
  assume b: "b < length (acquisitions t)" and r: "result (acquisitions t ! b) = Rejected e"
  have bs: "b < length (acquisitions s)" using b assms(2) by simp
  show "listening (acquisitions t ! b) \<and> (\<exists>r. e = AbortReason r)"
  proof (cases "b = a")
    case True
    have x: "acquisitions t ! b = g (acquisitions s ! a)" using bs True assms(2) by simp
    have old: "result (acquisitions s ! a) = Rejected e \<Longrightarrow>
        listening (acquisitions s ! a) \<and> (\<exists>r. e = AbortReason r)"
      using assms(1) bs True by (simp add: rejections_are_aborts_def)
    show ?thesis using assms(3) [of "acquisitions s ! a" e] r old by (auto simp: x)
  next
    case False
    then show ?thesis using assms(1,2) r bs by (simp add: rejections_are_aborts_def)
  qed
qed

lemma rejections_are_aborts_grant: "rejections_are_aborts s \<Longrightarrow> rejections_are_aborts (grant a s)"
  by (rule rejections_are_aborts_update [where a = a and g = "\<lambda>y. y\<lparr>result := Locked\<rparr>"])
     (simp_all add: grant_def)

lemma rejections_are_aborts_abort:
  assumes "rejections_are_aborts s"
  shows "rejections_are_aborts (abort a r s)"
proof (cases "listening (acquisitions s ! a) \<and> result (acquisitions s ! a) = Pending")
  case False
  then have "abort a r s = s" by (auto simp: abort_def)
  with assms show ?thesis by simp
next
  case True
  have eq: "acquisitions (abort a r s) = (acquisitions s)[a :=
      (acquisitions s ! a)\<lparr>result := Rejected (AbortReason r), unlockPromise := True\<rparr>]"
    using True by (simp add: abort_def)
  show ?thesis
  proof (rule rejections_are_aborts_update [OF assms, where a = a and g = "\<lambda>y.
        if listening y then y\<lparr>result := Rejected (AbortReason r), unlockPromise := True\<rparr> else y"])
    show "acquisitions (abort a r s) = (acquisitions s)[a :=
        (if listening (acquisitions s ! a)
         then (acquisitions s ! a)\<lparr>result := Rejected (AbortReason r), unlockPromise := True\<rparr>
         else acquisitions s ! a)]"
      using True by (simp add: eq)
  next
    fix y e
    assume "result (if listening y
        then y\<lparr>result := Rejected (AbortReason r), unlockPromise := True\<rparr> else y) = Rejected e"
    then show "(listening y \<and> listening (if listening y
          then y\<lparr>result := Rejected (AbortReason r), unlockPromise := True\<rparr> else y) \<and>
        (\<exists>r. e = AbortReason r)) \<or>
       (result y = Rejected e \<and> listening (if listening y
          then y\<lparr>result := Rejected (AbortReason r), unlockPromise := True\<rparr> else y) = listening y)"
      by (cases "listening y") auto
  qed
qed

lemma rejections_are_aborts_release:
  "rejections_are_aborts s \<Longrightarrow> rejections_are_aborts (kresolve_unlock a s)"
  by (rule rejections_are_aborts_update [where a = a and g = "\<lambda>y. y\<lparr>unlockPromise := True\<rparr>"])
     (simp_all add: kresolve_unlock_def)

lemma rejections_are_aborts_finalize:
  assumes "rejections_are_aborts s"
  shows "rejections_are_aborts (finalize a s)"
proof -
  let ?s1 = "fold kcall (nextFuncList (acquisitions s ! a)) s"
  have s1: "rejections_are_aborts ?s1"
    using assms by (rule rejections_are_aborts_same) (simp add: fold_kcall_frame)
  show ?thesis
    by (rule rejections_are_aborts_update [OF s1, where a = a and g = "\<lambda>y. y\<lparr>finalized := True\<rparr>"])
       (simp_all add: finalize_def Let_def)
qed

lemma rejections_are_aborts_run_then:
  assumes "rejections_are_aborts s"
  shows "rejections_are_aborts (run_then t s)"
proof -
  obtain g f fired where t: "thens s ! t = (g, f, fired)" by (cases "thens s ! t")
  show ?thesis
    using assms by (rule rejections_are_aborts_same) (simp add: run_then_def t Let_def kcall_frame)
qed

lemma rejections_are_aborts_kexec:
  assumes "rejections_are_aborts s"
  shows "rejections_are_aborts (kexec e s)"
proof (cases e)
  case (Lock key options)
  then show ?thesis
    using rejections_are_aborts_acquire [OF lock_entry_frame assms] by (simp add: lock_def)
next
  case (RLock key options)
  then show ?thesis
    using rejections_are_aborts_acquire [OF rLock_entry_frame assms] by (simp add: rLock_def)
next
  case (RunThen t)
  then show ?thesis using assms by (simp add: rejections_are_aborts_run_then)
next
  case (Grant a)
  then show ?thesis using assms by (simp add: rejections_are_aborts_grant)
next
  case (Abort a r)
  then show ?thesis using assms by (simp add: rejections_are_aborts_abort)
next
  case (Release a)
  then show ?thesis
    using assms
    by (simp add: rejections_are_aborts_release unlock_def lock_handle_def new_AsyncmuxLock_def)
next
  case (Finalize a)
  then show ?thesis using assms by (simp add: rejections_are_aborts_finalize)
qed

lemma kreachable_rejections: "kreachable s \<Longrightarrow> rejections_are_aborts s"
proof (induction rule: kreachable.induct)
  case kinit
  show ?case by (simp add: rejections_are_aborts_def new_Asyncmux_def)
next
  case (kstep s e)
  then show ?case by (simp add: rejections_are_aborts_kexec)
qed

text \<open>
  C10. \<open>lock\<close> and \<open>rLock\<close> fail at the call only when the signal they were given is
  aborted already, and then with the signal's reason; and in every state a keyed mux can
  reach, a rejected acquisition had a signal and is rejected with an abort reason. No
  path of the keyed form produces \<open>LockEscalationError\<close>.
\<close>

theorem keyed_never_escalates:
  "(fst (lock key options s) = Inl e \<longrightarrow> (\<exists>r. options = Signal (Some r) \<and> e = AbortReason r)) \<and>
   (fst (rLock key options s) = Inl e \<longrightarrow> (\<exists>r. options = Signal (Some r) \<and> e = AbortReason r)) \<and>
   (kreachable t \<longrightarrow> rejections_are_aborts t)"
proof (intro conjI impI)
  assume "fst (lock key options s) = Inl e"
  then show "\<exists>r. options = Signal (Some r) \<and> e = AbortReason r"
    unfolding lock_def by (rule acquire_fails)
next
  assume "fst (rLock key options s) = Inl e"
  then show "\<exists>r. options = Signal (Some r) \<and> e = AbortReason r"
    unfolding rLock_def by (rule acquire_fails)
next
  assume "kreachable t"
  then show "rejections_are_aborts t" by (rule kreachable_rejections)
qed


lemma keyed_released_ok:
  "krun_ok [Lock (Some ''k'') NoSignal, RunThen 0, Grant 0, Release 0, Finalize 0] new_Asyncmux"
  by code_simp

lemma keyed_released_eq:
  "keyed_released =
     \<lparr>items = [QueueItemG True, QueueItemW True []], promises = [],
      queues = [[0], []], partialQueue = [],
      thens = [(0, EntriesNext 1 ''k'', True)],
      acquisitions = [\<lparr>listening = False, result = Locked, unlockPromise = True,
         nextFuncList = [LockNext 1 1 (Some ''k'')], readyPromiseList = [(1, None)],
         finalized = True\<rparr>]\<rparr>"
  by code_simp

lemma unkeyed_stuck_eq:
  "unkeyed_stuck =
     \<lparr>items = [QueueItemG True, QueueItemW True [], QueueItemW False [LockNext 2 0 None]],
      promises = [], queues = [[0, 2], []], partialQueue = [],
      thens = [(0, EntriesNext 1 ''k'', True)],
      acquisitions = [\<lparr>listening = False, result = Locked, unlockPromise = True,
         nextFuncList = [LockNext 1 1 (Some ''k'')], readyPromiseList = [(1, None)],
         finalized = True\<rparr>,
        \<lparr>listening = False, result = Pending, unlockPromise = False,
         nextFuncList = [LockNext 2 0 None], readyPromiseList = [(2, None)],
         finalized = False\<rparr>]\<rparr>"
  by code_simp

text \<open>
  C3 fails on the code. After \<open>lock("k")\<close> was acquired and released, the key's array is
  gone from the map, but the \<open>G\<close> item created for it is still the head of the global
  queue: nothing ever shifts it. \<open>lock()\<close> then arrives on the global queue behind that
  item with a pending \<open>ready\<close>, and no callback that could resolve it is left: no event
  but a new arrival changes the state.
\<close>

theorem unkeyed_after_keyed_never_ready:
  "partialQueue keyed_released = [] \<and>
   fst (lock None NoSignal keyed_released) = Inr 1 \<and>
   queues unkeyed_stuck ! 0 = [0, 2] \<and>
   type (items unkeyed_stuck ! 0) = G \<and>
   \<not> ready (items unkeyed_stuck ! 2) \<and>
   length (thens unkeyed_stuck) = 1 \<and> length (acquisitions unkeyed_stuck) = 2 \<and>
   \<not> can_run_then 0 unkeyed_stuck \<and>
   \<not> can_grant 0 unkeyed_stuck \<and> \<not> can_grant 1 unkeyed_stuck \<and>
   \<not> can_finalize 0 unkeyed_stuck \<and> \<not> can_finalize 1 unkeyed_stuck \<and>
   \<not> kenabled (Release 1) unkeyed_stuck \<and>
   kexec (Release 0) unkeyed_stuck = unkeyed_stuck \<and>
   kexec (Abort 0 r) unkeyed_stuck = unkeyed_stuck \<and>
   kexec (Abort 1 r) unkeyed_stuck = unkeyed_stuck"
  by (simp add: keyed_released_eq unkeyed_stuck_eq can_run_then_def can_grant_def
      can_finalize_def all_ready_def abort_def unlock_def lock_handle_def new_AsyncmuxLock_def
      kresolve_unlock_def)
     code_simp


lemma aborted_waiter_reachable: "kreachable aborted_waiter"
proof -
  let ?s1 = "kexec (Lock (Some ''k'') NoSignal) new_Asyncmux"
  let ?s2 = "kexec (Lock (Some ''k'') (Signal None)) ?s1"
  have 1: "kreachable ?s1" by (rule kstep [OF kinit]) simp
  have 2: "kreachable ?s2" by (rule kstep [OF 1]) simp
  have "kenabled (Abort 1 ''stop'') ?s2" by code_simp
  then have "kreachable (kexec (Abort 1 ''stop'') ?s2)" by (rule kstep [OF 2])
  then show ?thesis by (simp add: aborted_waiter_def)
qed

theorem keyed_never_escalates_witness:
  "fst (lock None (Signal (Some ''stop'')) new_Asyncmux) = Inl (AbortReason ''stop'') \<and>
   fst (rLock (Some ''k'') (Signal (Some ''stop'')) new_Asyncmux) = Inl (AbortReason ''stop'') \<and>
   kreachable aborted_waiter \<and>
   result (acquisitions aborted_waiter ! 1) = Rejected (AbortReason ''stop'') \<and>
   rejections_are_aborts aborted_waiter"
proof -
  have a: "fst (lock None (Signal (Some ''stop'')) new_Asyncmux) = Inl (AbortReason ''stop'')"
    by code_simp
  have b: "fst (rLock (Some ''k'') (Signal (Some ''stop'')) new_Asyncmux) = Inl (AbortReason ''stop'')"
    by code_simp
  have c: "result (acquisitions aborted_waiter ! 1) = Rejected (AbortReason ''stop'')"
    by code_simp
  show ?thesis
    using keyed_never_escalates [of None "Signal (Some ''stop'')" new_Asyncmux
        "AbortReason ''stop''" aborted_waiter]
      keyed_never_escalates [of "Some ''k''" "Signal (Some ''stop'')" new_Asyncmux
        "AbortReason ''stop''" aborted_waiter]
      a b c aborted_waiter_reachable
    by simp
qed

section \<open>Lock handles\<close>

lemma settles_refl: "settles x x"
  by (simp add: settles_def)

lemma settles_update:
  assumes "a < length xs" and "\<And>y. settles y (g y)"
  shows "a < length (xs[b := g (xs ! b)]) \<and> settles (xs ! a) (xs[b := g (xs ! b)] ! a)"
  using assms by (cases "a = b") (simp_all add: settles_refl)

lemma kexec_settles:
  assumes "a < length (acquisitions s)" and "kenabled e s"
  shows "a < length (acquisitions (kexec e s)) \<and>
    settles (acquisitions s ! a) (acquisitions (kexec e s) ! a)"
proof (cases e)
  case (Lock key options)
  obtain fs rs where "acquisitions (snd (acquire lock_entry key options s)) =
    (if throwIfAborted options = None
     then acquisitions s @ [\<lparr>listening = (options \<noteq> NoSignal), result = Pending,
        unlockPromise = False, nextFuncList = fs, readyPromiseList = rs, finalized = False\<rparr>]
     else acquisitions s)"
    using acquire_acquisitions [of lock_entry key options s, OF lock_entry_frame] by blast
  then show ?thesis using Lock assms(1) by (simp add: lock_def nth_append settles_refl)
next
  case (RLock key options)
  obtain fs rs where "acquisitions (snd (acquire rLock_entry key options s)) =
    (if throwIfAborted options = None
     then acquisitions s @ [\<lparr>listening = (options \<noteq> NoSignal), result = Pending,
        unlockPromise = False, nextFuncList = fs, readyPromiseList = rs, finalized = False\<rparr>]
     else acquisitions s)"
    using acquire_acquisitions [of rLock_entry key options s, OF rLock_entry_frame] by blast
  then show ?thesis using RLock assms(1) by (simp add: rLock_def nth_append settles_refl)
next
  case (RunThen t)
  obtain g f fired where t: "thens s ! t = (g, f, fired)" by (cases "thens s ! t")
  show ?thesis using RunThen assms(1) by (simp add: run_then_def t Let_def kcall_frame settles_refl)
next
  case (Grant b)
  have p: "result (acquisitions s ! b) = Pending" using assms(2) Grant by (simp add: can_grant_def)
  show ?thesis
  proof (cases "a = b")
    case True
    then show ?thesis using Grant assms(1) p by (simp add: grant_def settles_def)
  next
    case False
    then show ?thesis using Grant assms(1) by (simp add: grant_def settles_refl)
  qed
next
  case (Abort b r)
  show ?thesis
  proof (cases "listening (acquisitions s ! b) \<and> result (acquisitions s ! b) = Pending")
    case False
    then have "abort b r s = s" by (auto simp: abort_def)
    then show ?thesis using Abort assms(1) by (simp add: settles_refl)
  next
    case True
    then show ?thesis using Abort assms(1)
      by (cases "a = b") (simp_all add: abort_def settles_def)
  qed
next
  case (Release b)
  have "kexec e s = kresolve_unlock b s"
    using Release by (simp add: unlock_def lock_handle_def new_AsyncmuxLock_def)
  then show ?thesis using assms(1)
    by (cases "a = b") (simp_all add: kresolve_unlock_def settles_def)
next
  case (Finalize b)
  let ?s1 = "fold kcall (nextFuncList (acquisitions s ! b)) s"
  have s1: "acquisitions ?s1 = acquisitions s" by (simp add: fold_kcall_frame)
  show ?thesis using Finalize assms(1)
    by (cases "a = b") (simp_all add: finalize_def Let_def s1 settles_def)
qed

lemma kresolve_unlock_idem: "kresolve_unlock a (kresolve_unlock a s) = kresolve_unlock a s"
  by (cases "a < length (acquisitions s)") (simp_all add: kresolve_unlock_def list_update_beyond)

lemma resolve_unlock_idem: "resolve_unlock m (resolve_unlock m s) = resolve_unlock m s"
  by (cases "m < length (manuals s)") (simp_all add: resolve_unlock_def list_update_beyond)

lemma push_new_frame:
  "invocations (snd (push_new it c s)) = invocations s"
  "manuals (snd (push_new it c s)) = manuals s"
  by (simp_all add: push_new_def)

lemma asyncmuxClassMethod_invocations:
  "\<exists>xs. invocations (snd (asyncmuxClassMethod m s)) = invocations s @ xs"
  by (simp add: asyncmuxClassMethod_def push_new_def Let_def split_def
      split: option.splits tag.splits)

lemma asyncmuxReadonlyClassMethod_invocations:
  "\<exists>xs. invocations (snd (asyncmuxReadonlyClassMethod m s)) = invocations s @ xs"
  by (simp add: asyncmuxReadonlyClassMethod_def push_new_def Let_def split_def
      split: option.splits tag.splits)

lemma manualLock_invocations:
  assumes "\<And>m s. \<exists>xs. invocations (snd (decorator m s)) = invocations s @ xs"
  shows "\<exists>xs. invocations (snd (manualLock decorator options s)) = invocations s @ xs"
proof (cases "throwIfAborted options")
  case (Some e)
  then show ?thesis by (simp add: manualLock_def)
next
  case None
  let ?s1 = "initializeInstance (s\<lparr>manuals := manuals s @
      [\<lparr>listening = (options \<noteq> NoSignal), result = Pending, unlockPromise = False\<rparr>]\<rparr>)"
  have i: "invocations ?s1 = invocations s"
    by (simp add: initializeInstance_def split: option.splits)
  obtain xs where "invocations (snd (decorator (WaitForUnlock (length (manuals s))) ?s1))
      = invocations s @ xs"
    using assms [of "WaitForUnlock (length (manuals s))" ?s1] i by auto
  then show ?thesis
    using None by (cases "decorator (WaitForUnlock (length (manuals s))) ?s1")
      (auto simp: manualLock_def Let_def split: sum.splits)
qed

lemma exec_finished:
  assumes "i < length (invocations s)" and "enabled e s"
    and "phase (invocations s ! i) = Finished"
  shows "i < length (invocations (exec e s)) \<and> phase (invocations (exec e s) ! i) = Finished"
proof (cases e)
  case Initialize
  then show ?thesis using assms by (simp add: initializeInstance_def split: option.splits)
next
  case Write
  obtain xs where "invocations (snd (asyncmuxClassMethod UserMethod s)) = invocations s @ xs"
    using asyncmuxClassMethod_invocations by blast
  then show ?thesis using Write assms by (simp add: nth_append)
next
  case Read
  obtain xs where "invocations (snd (asyncmuxReadonlyClassMethod UserMethod s)) = invocations s @ xs"
    using asyncmuxReadonlyClassMethod_invocations by blast
  then show ?thesis using Read assms by (simp add: nth_append)
next
  case (ManualWrite options)
  obtain xs where "invocations (snd (manualLock asyncmuxClassMethod options s)) = invocations s @ xs"
    using manualLock_invocations [of asyncmuxClassMethod, OF asyncmuxClassMethod_invocations]
    by blast
  then show ?thesis using ManualWrite assms by (simp add: nth_append)
next
  case (ManualRead options)
  obtain xs where "invocations (snd (manualLock asyncmuxReadonlyClassMethod options s))
      = invocations s @ xs"
    using manualLock_invocations [of asyncmuxReadonlyClassMethod,
        OF asyncmuxReadonlyClassMethod_invocations]
    by blast
  then show ?thesis using ManualRead assms by (simp add: nth_append)
next
  case (Begin j)
  then have "j \<noteq> i" using assms by (auto simp: can_begin_def)
  then show ?thesis using Begin assms by (simp add: begin_body_def Let_def split: body.splits)
next
  case (Finish j)
  then show ?thesis using assms
    by (cases "j = i") (simp_all add: finish_body_def Let_def call_frame)
next
  case (OnAbort m r)
  then show ?thesis using assms by (simp add: onAbort_def)
next
  case (Unlock m)
  then show ?thesis using assms
    by (simp add: unlock_def manual_handle_def new_AsyncmuxLock_def resolve_unlock_def)
qed

text \<open>
  C7. The handle of a keyed acquisition and the handle of a manual lock: \<open>unlock\<close>
  resolves \<open>unlockPromise\<close>; a second \<open>unlock\<close>, or \<open>dispose\<close> after \<open>unlock\<close>, leaves
  handle and state as they are. The release callback (\<open>finalize\<close>, respectively
  \<open>finish_body\<close>) cannot run again once it has run, whatever event happens in between,
  further unlocks included.
\<close>

theorem unlock_twice_same_as_once:
  "(case unlock (lock_handle a) s of (h, s') \<Rightarrow>
      s' = kresolve_unlock a s \<and> unlock h s' = (h, s') \<and> dispose h s' = (h, s')) \<and>
   (case unlock (manual_handle m) t of (h, t') \<Rightarrow>
      t' = resolve_unlock m t \<and> unlock h t' = (h, t') \<and> dispose h t' = (h, t')) \<and>
   (a < length (acquisitions s) \<longrightarrow> \<not> can_finalize a (finalize a s)) \<and>
   (a < length (acquisitions s) \<and> finalized (acquisitions s ! a) \<and> kenabled e s \<longrightarrow>
      a < length (acquisitions (kexec e s)) \<and> finalized (acquisitions (kexec e s) ! a) \<and>
      \<not> can_finalize a (kexec e s)) \<and>
   (i < length (invocations t) \<longrightarrow> \<not> can_finish i (finish_body i t)) \<and>
   (i < length (invocations t) \<and> phase (invocations t ! i) = Finished \<and> enabled ev t \<longrightarrow>
      i < length (invocations (exec ev t)) \<and> phase (invocations (exec ev t) ! i) = Finished \<and>
      \<not> can_finish i (exec ev t))"
proof (intro conjI impI)
  show "case unlock (lock_handle a) s of (h, s') \<Rightarrow>
      s' = kresolve_unlock a s \<and> unlock h s' = (h, s') \<and> dispose h s' = (h, s')"
    by (simp add: unlock_def dispose_def lock_handle_def new_AsyncmuxLock_def kresolve_unlock_idem)
  show "case unlock (manual_handle m) t of (h, t') \<Rightarrow>
      t' = resolve_unlock m t \<and> unlock h t' = (h, t') \<and> dispose h t' = (h, t')"
    by (simp add: unlock_def dispose_def manual_handle_def new_AsyncmuxLock_def resolve_unlock_idem)
next
  assume "a < length (acquisitions s)"
  then show "\<not> can_finalize a (finalize a s)"
    by (simp add: can_finalize_def finalize_def Let_def fold_kcall_frame)
next
  assume h: "a < length (acquisitions s) \<and> finalized (acquisitions s ! a) \<and> kenabled e s"
  then have k: "a < length (acquisitions (kexec e s)) \<and>
      settles (acquisitions s ! a) (acquisitions (kexec e s) ! a)"
    by (simp add: kexec_settles)
  then show "a < length (acquisitions (kexec e s))" by simp
  show f: "finalized (acquisitions (kexec e s) ! a)" using h k by (simp add: settles_def)
  then show "\<not> can_finalize a (kexec e s)" by (simp add: can_finalize_def)
next
  assume "i < length (invocations t)"
  then show "\<not> can_finish i (finish_body i t)"
    by (simp add: can_finish_def finish_body_def Let_def call_frame)
next
  assume h: "i < length (invocations t) \<and> phase (invocations t ! i) = Finished \<and> enabled ev t"
  then have k: "i < length (invocations (exec ev t)) \<and>
      phase (invocations (exec ev t) ! i) = Finished"
    by (simp add: exec_finished)
  then show "i < length (invocations (exec ev t))" by simp
  show "phase (invocations (exec ev t) ! i) = Finished" using k by simp
  then show "\<not> can_finish i (exec ev t)" by (simp add: can_finish_def)
qed


lemma manual_finished_ok:
  "run_ok [ManualWrite NoSignal, Begin 0, Unlock 0, Finish 0] new_owner"
  by code_simp

theorem unlock_twice_same_as_once_witness:
  "0 < length (acquisitions keyed_released) \<and> finalized (acquisitions keyed_released ! 0) \<and>
   kenabled (Release 0) keyed_released \<and>
   \<not> can_finalize 0 (kexec (Release 0) keyed_released) \<and>
   \<not> can_finalize 0 (finalize 0 keyed_released) \<and>
   snd (unlock (fst (unlock (lock_handle 0) keyed_released))
          (snd (unlock (lock_handle 0) keyed_released))) = kresolve_unlock 0 keyed_released \<and>
   0 < length (invocations manual_finished) \<and>
   phase (invocations manual_finished ! 0) = Finished \<and>
   enabled (Unlock 0) manual_finished \<and>
   \<not> can_finish 0 (exec (Unlock 0) manual_finished) \<and>
   \<not> can_finish 0 (finish_body 0 manual_finished) \<and>
   snd (dispose (fst (unlock (manual_handle 0) manual_finished))
          (snd (unlock (manual_handle 0) manual_finished))) = resolve_unlock 0 manual_finished"
proof -
  have k: "0 < length (acquisitions keyed_released)" "finalized (acquisitions keyed_released ! 0)"
    "kenabled (Release 0) keyed_released"
    by (simp_all add: keyed_released_eq)
  have m: "0 < length (invocations manual_finished)"
    "phase (invocations manual_finished ! 0) = Finished" "enabled (Unlock 0) manual_finished"
    by code_simp+
  show ?thesis
    using k m unlock_twice_same_as_once [of 0 keyed_released 0 manual_finished "Release 0" 0 "Unlock 0"]
    by (auto simp: split_def)
qed

section \<open>Cancellation\<close>

lemma map_update_same:
  assumes "f y = f (xs ! a)"
  shows "map f (xs[a := y]) = map f xs"
proof (cases "a < length xs")
  case True
  then have "(map f xs)[a := f (xs ! a)] = map f xs"
    by (metis list_update_id nth_map)
  then show ?thesis by (simp add: map_update assms)
next
  case False
  then show ?thesis by (simp add: list_update_beyond)
qed

lemma same_heap_shift_queue:
  "same_heap s t \<Longrightarrow> same_heap (shift_queue q key s) (shift_queue q key t)"
  by (simp add: same_heap_def shift_queue_def Let_def split: list.splits option.splits)

lemma same_heap_kcall: "same_heap s t \<Longrightarrow> same_heap (kcall f s) (kcall f t)"
proof (induction f s arbitrary: t rule: kcall.induct)
  case (1 p s)
  then show ?case by (simp add: same_heap_def)
next
  case (2 q k s)
  then show ?case by (simp add: same_heap_shift_queue)
next
  case (3 r q key s)
  let ?s1 = "s\<lparr>items := (items s)[r := count_add (- 1) (items s ! r)]\<rparr>"
  let ?t1 = "t\<lparr>items := (items t)[r := count_add (- 1) (items t ! r)]\<rparr>"
  have i: "items t = items s" using 3 by (simp add: same_heap_def)
  have h: "same_heap ?s1 ?t1" using 3 by (simp add: same_heap_def)
  show ?case
    using 3 h same_heap_shift_queue [OF h, of q key] by (simp add: Let_def i)
next
  case (4 w q key s)
  have i: "items t = items s" using 4(2) by (simp add: same_heap_def)
  show ?case
  proof (cases "w < length (items s)")
    case False
    then show ?thesis using 4(2) by (simp add: i)
  next
    case True
    show ?thesis
    proof (cases "steps (items s ! w)")
      case Nil
      with True show ?thesis using 4(2) by (simp add: i same_heap_shift_queue)
    next
      case (Cons step rest)
      let ?s1 = "s\<lparr>items := (items s)[w := steps_shift (items s ! w)]\<rparr>"
      let ?t1 = "t\<lparr>items := (items t)[w := steps_shift (items t ! w)]\<rparr>"
      have h: "same_heap ?s1 ?t1" using 4(2) by (simp add: same_heap_def)
      have "same_heap (kcall step ?s1) (kcall step ?t1)"
        using 4(1) [OF True Cons h] .
      then show ?thesis using True Cons by (simp add: i)
    qed
  qed
qed

lemma same_heap_fold_kcall:
  "same_heap s t \<Longrightarrow> same_heap (fold kcall fs s) (fold kcall fs t)"
  by (induction fs arbitrary: s t) (simp_all add: same_heap_kcall)

lemma same_heap_getQueueEntries:
  assumes "same_heap s t"
  shows "fst (getQueueEntries key s) = fst (getQueueEntries key t) \<and>
    same_heap (snd (getQueueEntries key s)) (snd (getQueueEntries key t))"
  using assms
  by (simp add: same_heap_def getQueueEntries_def queue_push_def Let_def split_def
      split: option.splits)

lemma same_heap_lock_entry:
  assumes "same_heap s t"
  shows "fst (lock_entry e s) = fst (lock_entry e t) \<and>
    same_heap (snd (lock_entry e s)) (snd (lock_entry e t))"
  using assms
  by (simp add: same_heap_def lock_entry_def queue_push_def Let_def split_def
      split: option.splits)

lemma same_heap_rLock_entry:
  assumes "same_heap s t"
  shows "fst (rLock_entry e s) = fst (rLock_entry e t) \<and>
    same_heap (snd (rLock_entry e s)) (snd (rLock_entry e t))"
  using assms
  by (simp add: same_heap_def rLock_entry_def queue_push_def Let_def split_def
      split: option.splits)

lemma same_heap_for_entries:
  assumes f: "\<And>e s t. same_heap s t \<Longrightarrow>
      fst (f e s) = fst (f e t) \<and> same_heap (snd (f e s)) (snd (f e t))"
    and "same_heap s t"
  shows "fst (for_entries f es s) = fst (for_entries f es t) \<and>
    same_heap (snd (for_entries f es s)) (snd (for_entries f es t))"
  using assms(2)
proof (induction es arbitrary: s t)
  case Nil
  then show ?case by simp
next
  case (Cons e es)
  have 1: "fst (f e s) = fst (f e t)" "same_heap (snd (f e s)) (snd (f e t))"
    using f [OF Cons.prems, of e] by simp_all
  show ?case using 1 Cons.IH [OF 1(2)] by (simp add: split_def Let_def)
qed

lemma same_queues_acquire:
  assumes c: "\<And>e s t. same_heap s t \<Longrightarrow>
      fst (f e s) = fst (f e t) \<and> same_heap (snd (f e s)) (snd (f e t))"
    and fr: "\<And>e s. acquisitions (snd (f e s)) = acquisitions s"
    and st: "same_queues s t"
  shows "same_queues (snd (acquire f key options s)) (snd (acquire f key options t))"
proof (cases "throwIfAborted options")
  case (Some e)
  then show ?thesis using st by (simp add: acquire_def)
next
  case None
  let ?gs = "getQueueEntries key s" and ?gt = "getQueueEntries key t"
  let ?ps = "for_entries f (fst ?gs) (snd ?gs)" and ?pt = "for_entries f (fst ?gt) (snd ?gt)"
  have h: "same_heap s t" using st by (simp add: same_queues_def)
  have g: "fst ?gs = fst ?gt" "same_heap (snd ?gs) (snd ?gt)"
    using same_heap_getQueueEntries [OF h, of key] by simp_all
  have p: "fst ?ps = fst ?pt" "same_heap (snd ?ps) (snd ?pt)"
    using same_heap_for_entries [of f "snd ?gs" "snd ?gt" "fst ?gs", OF c g(2)] g(1) by simp_all
  have a: "acquisitions (snd ?ps) = acquisitions s" "acquisitions (snd ?pt) = acquisitions t"
    using for_entries_frame [of f "fst ?gs" "snd ?gs", OF fr] getQueueEntries_frame [of key s]
      for_entries_frame [of f "fst ?gt" "snd ?gt", OF fr] getQueueEntries_frame [of key t]
    by simp_all
  show ?thesis
    using None st a p by (simp add: acquire_def split_def Let_def same_queues_def same_heap_def)
qed

lemma same_queues_length:
  assumes "same_queues s t"
  shows "length (acquisitions s) = length (acquisitions t)"
proof -
  have "length (map nextFuncList (acquisitions s)) = length (map nextFuncList (acquisitions t))"
    using assms by (simp only: same_queues_def)
  then show ?thesis by simp
qed

lemma same_queues_nextFuncList:
  assumes "same_queues s t" and "a < length (acquisitions s)"
  shows "nextFuncList (acquisitions t ! a) = nextFuncList (acquisitions s ! a)"
    and "readyPromiseList (acquisitions t ! a) = readyPromiseList (acquisitions s ! a)"
proof -
  have l: "a < length (acquisitions t)" using assms same_queues_length by simp
  have "map nextFuncList (acquisitions s) ! a = map nextFuncList (acquisitions t) ! a"
    "map readyPromiseList (acquisitions s) ! a = map readyPromiseList (acquisitions t) ! a"
    using assms(1) by (simp_all only: same_queues_def)
  then show "nextFuncList (acquisitions t ! a) = nextFuncList (acquisitions s ! a)"
    and "readyPromiseList (acquisitions t ! a) = readyPromiseList (acquisitions s ! a)"
    using l assms(2) by simp_all
qed

lemma same_queues_kexec:
  assumes "same_queues s t" and "\<And>a. e = Finalize a \<Longrightarrow> a < length (acquisitions s)"
  shows "same_queues (kexec e s) (kexec e t)"
proof (cases e)
  case (Lock key options)
  then show ?thesis
    using same_queues_acquire [of lock_entry s t key options, OF same_heap_lock_entry lock_entry_frame assms(1)]
    by (simp add: lock_def)
next
  case (RLock key options)
  then show ?thesis
    using same_queues_acquire [of rLock_entry s t key options, OF same_heap_rLock_entry rLock_entry_frame assms(1)]
    by (simp add: rLock_def)
next
  case (RunThen n)
  have h: "same_heap s t" using assms(1) by (simp add: same_queues_def)
  obtain g f fired where n: "thens s ! n = (g, f, fired)" by (cases "thens s ! n")
  have nt: "thens t ! n = (g, f, fired)" using n h by (simp add: same_heap_def)
  have "same_heap (kcall f s) (kcall f t)" using h by (rule same_heap_kcall)
  then show ?thesis
    using RunThen assms(1)
    by (simp add: run_then_def n nt Let_def same_queues_def same_heap_def kcall_frame)
next
  case (Grant a)
  then show ?thesis using assms(1)
    by (simp add: grant_def same_queues_def same_heap_def map_update_same)
next
  case (Abort a r)
  then show ?thesis using assms(1)
    by (simp add: abort_def same_queues_def same_heap_def map_update_same)
next
  case (Release a)
  then show ?thesis using assms(1)
    by (simp add: unlock_def lock_handle_def new_AsyncmuxLock_def kresolve_unlock_def
        same_queues_def same_heap_def map_update_same)
next
  case (Finalize a)
  have h: "same_heap s t" using assms(1) by (simp add: same_queues_def)
  have a: "a < length (acquisitions s)" "a < length (acquisitions t)"
    using assms(2) [OF Finalize] same_queues_length [OF assms(1)] by simp_all
  have nf: "nextFuncList (acquisitions t ! a) = nextFuncList (acquisitions s ! a)"
    using a assms(1) by (simp add: same_queues_nextFuncList)
  let ?fs = "nextFuncList (acquisitions s ! a)"
  have "same_heap (fold kcall ?fs s) (fold kcall ?fs t)" using h by (rule same_heap_fold_kcall)
  then show ?thesis
    using Finalize assms(1)
    by (simp add: finalize_def nf Let_def same_queues_def same_heap_def fold_kcall_frame
        map_update_same)
qed


lemma same_queues_refl: "same_queues s s"
  by (simp add: same_queues_def same_heap_def)

lemma same_queues_sym: "same_queues s t \<Longrightarrow> same_queues t s"
  by (simp add: same_queues_def same_heap_def)

lemma same_queues_trans: "same_queues s t \<Longrightarrow> same_queues t u \<Longrightarrow> same_queues s u"
  by (simp add: same_queues_def same_heap_def)

lemma same_queues_flags:
  "same_queues (abort a r s) s"
  "same_queues (grant a s) s"
  "same_queues (kresolve_unlock a s) s"
  by (simp_all add: same_queues_def same_heap_def abort_def grant_def kresolve_unlock_def
      map_update_same)

lemma krun_same_queues:
  "same_queues s t \<Longrightarrow> krun_ok es s \<Longrightarrow> same_queues (fold kexec es s) (fold kexec es t)"
proof (induction es arbitrary: s t)
  case Nil
  then show ?case by simp
next
  case (Cons e es)
  have "same_queues (kexec e s) (kexec e t)"
  proof (rule same_queues_kexec [OF Cons.prems(1)])
    fix a
    assume "e = Finalize a"
    then show "a < length (acquisitions s)" using Cons.prems(2) by (simp add: can_finalize_def)
  qed
  then show ?case using Cons.IH [of "kexec e s" "kexec e t"] Cons.prems(2) by simp
qed

lemma settles_trans: "settles x y \<Longrightarrow> settles y z \<Longrightarrow> settles x z"
  by (auto simp: settles_def)

lemma krun_settles:
  "a < length (acquisitions s) \<Longrightarrow> krun_ok es s \<Longrightarrow>
   a < length (acquisitions (fold kexec es s)) \<and>
   settles (acquisitions s ! a) (acquisitions (fold kexec es s) ! a)"
proof (induction es arbitrary: s)
  case Nil
  then show ?case by (simp add: settles_refl)
next
  case (Cons e es)
  have 1: "a < length (acquisitions (kexec e s))"
    "settles (acquisitions s ! a) (acquisitions (kexec e s) ! a)"
    using kexec_settles [of a s e] Cons.prems by simp_all
  have 2: "a < length (acquisitions (fold kexec es (kexec e s)))"
    "settles (acquisitions (kexec e s) ! a) (acquisitions (fold kexec es (kexec e s)) ! a)"
    using Cons.IH [OF 1(1)] Cons.prems(2) by simp_all
  show ?case using 2(1) settles_trans [OF 1(2) 2(2)] by simp
qed

lemma keyed_cancel:
  assumes a: "a < length (acquisitions s)"
    and l: "listening (acquisitions s ! a)"
    and p: "result (acquisitions s ! a) = Pending"
    and ok: "krun_ok es (abort a r s)"
  shows "same_queues (abort a r s) s \<and>
    result (acquisitions (fold kexec es (abort a r s)) ! a) = Rejected (AbortReason r) \<and>
    \<not> can_grant a (fold kexec es (abort a r s)) \<and>
    same_queues (fold kexec es (abort a r s)) (fold kexec es s) \<and>
    can_finalize a (fold kexec es (abort a r s)) =
      (all_ready a (fold kexec es (abort a r s)) \<and>
       \<not> finalized (acquisitions (fold kexec es (abort a r s)) ! a)) \<and>
    same_queues (finalize a (fold kexec es (abort a r s)))
      (finalize a (snd (unlock (lock_handle a) (grant a (fold kexec es s)))))"
proof -
  let ?c = "abort a r s"
  let ?u = "fold kexec es ?c"
  let ?v = "fold kexec es s"
  have c: "a < length (acquisitions ?c)"
    "result (acquisitions ?c ! a) = Rejected (AbortReason r)" "unlockPromise (acquisitions ?c ! a)"
    using a l p by (simp_all add: abort_def)
  have u: "a < length (acquisitions ?u)" "settles (acquisitions ?c ! a) (acquisitions ?u ! a)"
    using krun_settles [OF c(1) ok] by simp_all
  have r: "result (acquisitions ?u ! a) = Rejected (AbortReason r)"
    and up: "unlockPromise (acquisitions ?u ! a)"
    using u(2) c by (simp_all add: settles_def)
  have q: "same_queues ?u ?v"
    using krun_same_queues [OF same_queues_flags(1) ok] .
  have v: "same_queues ?u (snd (unlock (lock_handle a) (grant a ?v)))"
    using same_queues_trans [OF q same_queues_sym [OF same_queues_trans
        [OF same_queues_flags(3) [of a "grant a ?v"] same_queues_flags(2) [of a ?v]]]]
    by (simp add: unlock_def lock_handle_def new_AsyncmuxLock_def)
  have f: "same_queues (kexec (Finalize a) ?u)
      (kexec (Finalize a) (snd (unlock (lock_handle a) (grant a ?v))))"
    using u(1) by (intro same_queues_kexec [OF v]) simp
  show ?thesis
    using r up u(1) q f same_queues_flags(1) [of a r s]
    by (auto simp: can_grant_def can_finalize_def)
qed

lemma same_owner_shift_start:
  "same_owner s t \<Longrightarrow> same_owner (shift_start c s) (shift_start c t)"
  by (simp add: same_owner_def shift_start_def Let_def split: list.splits)

lemma same_owner_call: "same_owner s t \<Longrightarrow> same_owner (call f s) (call f t)"
proof (induction f s arbitrary: t rule: call.induct)
  case (1 p s)
  then show ?case by (simp add: same_owner_def)
next
  case (2 r c s)
  let ?s1 = "s\<lparr>items := (items s)[r := count_add (- 1) (items s ! r)]\<rparr>"
  let ?t1 = "t\<lparr>items := (items t)[r := count_add (- 1) (items t ! r)]\<rparr>"
  have i: "items t = items s" using 2 by (simp add: same_owner_def)
  have h: "same_owner ?s1 ?t1" using 2 by (simp add: same_owner_def)
  show ?case
    using 2 h same_owner_shift_start [OF h, of c] by (simp add: Let_def i)
next
  case (3 w c s)
  have i: "items t = items s" using 3(2) by (simp add: same_owner_def)
  show ?case
  proof (cases "w < length (items s)")
    case False
    then show ?thesis using 3(2) by (simp add: i)
  next
    case True
    show ?thesis
    proof (cases "steps (items s ! w)")
      case Nil
      with True show ?thesis using 3(2) by (simp add: i same_owner_shift_start)
    next
      case (Cons step rest)
      let ?s1 = "s\<lparr>items := (items s)[w := steps_shift (items s ! w)]\<rparr>"
      let ?t1 = "t\<lparr>items := (items t)[w := steps_shift (items t ! w)]\<rparr>"
      have h: "same_owner ?s1 ?t1" using 3(2) by (simp add: same_owner_def)
      have "same_owner (call step ?s1) (call step ?t1)"
        using 3(1) [OF True Cons h] .
      then show ?thesis using True Cons by (simp add: i)
    qed
  qed
qed

lemma asyncmuxClassMethod_manuals: "manuals (snd (asyncmuxClassMethod m s)) = manuals s"
  by (simp add: asyncmuxClassMethod_def push_new_def Let_def split_def
      split: option.splits tag.splits)

lemma asyncmuxReadonlyClassMethod_manuals:
  "manuals (snd (asyncmuxReadonlyClassMethod m s)) = manuals s"
  by (simp add: asyncmuxReadonlyClassMethod_def push_new_def Let_def split_def
      split: option.splits tag.splits)

lemma same_owner_asyncmuxClassMethod:
  assumes "same_owner s t"
  shows "fst (asyncmuxClassMethod m s) = fst (asyncmuxClassMethod m t) \<and>
    same_owner (snd (asyncmuxClassMethod m s)) (snd (asyncmuxClassMethod m t))"
  using assms
  by (simp add: same_owner_def asyncmuxClassMethod_def push_new_def Let_def split_def
      split: option.splits tag.splits)

lemma same_owner_asyncmuxReadonlyClassMethod:
  assumes "same_owner s t"
  shows "fst (asyncmuxReadonlyClassMethod m s) = fst (asyncmuxReadonlyClassMethod m t) \<and>
    same_owner (snd (asyncmuxReadonlyClassMethod m s)) (snd (asyncmuxReadonlyClassMethod m t))"
  using assms
  by (simp add: same_owner_def asyncmuxReadonlyClassMethod_def push_new_def Let_def split_def
      split: option.splits tag.splits)


lemma same_owner_initializeInstance:
  "same_owner s t \<Longrightarrow> same_owner (initializeInstance s) (initializeInstance t)"
  by (simp add: same_owner_def initializeInstance_def split: option.splits)

lemma same_owner_manualLock:
  assumes c: "\<And>m s t. same_owner s t \<Longrightarrow>
      fst (d m s) = fst (d m t) \<and> same_owner (snd (d m s)) (snd (d m t))"
    and fr: "\<And>m s. manuals (snd (d m s)) = manuals s"
    and st: "same_owner s t"
  shows "same_owner (snd (manualLock d options s)) (snd (manualLock d options t))"
proof (cases "throwIfAborted options")
  case (Some e)
  then show ?thesis using st by (simp add: manualLock_def)
next
  case None
  let ?new = "\<lparr>listening = (options \<noteq> NoSignal), result = Pending, unlockPromise = False\<rparr>"
  let ?s1 = "initializeInstance (s\<lparr>manuals := manuals s @ [?new]\<rparr>)"
  let ?t1 = "initializeInstance (t\<lparr>manuals := manuals t @ [?new]\<rparr>)"
  have l: "length (manuals t) = length (manuals s)" using st by (simp add: same_owner_def)
  have 1: "same_owner ?s1 ?t1"
    using st by (intro same_owner_initializeInstance) (simp add: same_owner_def)
  have 2: "fst (d (WaitForUnlock (length (manuals s))) ?s1)
      = fst (d (WaitForUnlock (length (manuals s))) ?t1)"
    "same_owner (snd (d (WaitForUnlock (length (manuals s))) ?s1))
      (snd (d (WaitForUnlock (length (manuals s))) ?t1))"
    using c [OF 1] by simp_all
  show ?thesis
    using None 2
    by (cases "fst (d (WaitForUnlock (length (manuals s))) ?t1)")
       (simp_all add: manualLock_def Let_def split_def l same_owner_def)
qed

lemma manualLock_manuals:
  assumes fr: "\<And>m s. manuals (snd (d m s)) = manuals s"
  shows "\<exists>xs. manuals (snd (manualLock d options s)) = manuals s @ xs"
proof (cases "throwIfAborted options")
  case (Some e)
  then show ?thesis by (simp add: manualLock_def)
next
  case None
  let ?new = "\<lparr>listening = (options \<noteq> NoSignal), result = Pending, unlockPromise = False\<rparr>"
  let ?s1 = "initializeInstance (s\<lparr>manuals := manuals s @ [?new]\<rparr>)"
  have m: "manuals (snd (d (WaitForUnlock (length (manuals s))) ?s1)) = manuals s @ [?new]"
    by (simp add: fr initializeInstance_def split: option.splits)
  show ?thesis
    using None m
    by (cases "fst (d (WaitForUnlock (length (manuals s))) ?s1)")
       (simp_all add: manualLock_def Let_def split_def)
qed

lemma same_owner_exec:
  assumes "same_owner s t"
  shows "same_owner (exec e s) (exec e t)"
proof (cases e)
  case Initialize
  then show ?thesis using assms by (simp add: same_owner_initializeInstance)
next
  case Write
  then show ?thesis using same_owner_asyncmuxClassMethod [OF assms] by simp
next
  case Read
  then show ?thesis using same_owner_asyncmuxReadonlyClassMethod [OF assms] by simp
next
  case (ManualWrite options)
  then show ?thesis
    using same_owner_manualLock [of asyncmuxClassMethod s t options,
        OF same_owner_asyncmuxClassMethod asyncmuxClassMethod_manuals assms]
    by simp
next
  case (ManualRead options)
  then show ?thesis
    using same_owner_manualLock [of asyncmuxReadonlyClassMethod s t options,
        OF same_owner_asyncmuxReadonlyClassMethod asyncmuxReadonlyClassMethod_manuals assms]
    by simp
next
  case (Begin i)
  then show ?thesis using assms
    by (simp add: begin_body_def Let_def same_owner_def split: body.splits)
next
  case (Finish i)
  let ?s0 = "s\<lparr>CONTEXT := Some (captured (invocations s ! i))\<rparr>"
  let ?t0 = "t\<lparr>CONTEXT := Some (captured (invocations t ! i))\<rparr>"
  have i: "invocations t = invocations s" using assms by (simp add: same_owner_def)
  have "same_owner ?s0 ?t0" using assms by (simp add: same_owner_def)
  then have "same_owner (call (release (invocations s ! i)) ?s0)
      (call (release (invocations s ! i)) ?t0)"
    by (rule same_owner_call)
  then show ?thesis using Finish by (simp add: finish_body_def Let_def i same_owner_def)
next
  case (OnAbort m r)
  then show ?thesis using assms by (simp add: onAbort_def same_owner_def)
next
  case (Unlock m)
  then show ?thesis using assms
    by (simp add: unlock_def manual_handle_def new_AsyncmuxLock_def resolve_unlock_def
        same_owner_def)
qed

lemma msettles_refl: "msettles x x"
  by (simp add: msettles_def)

lemma msettles_trans: "msettles x y \<Longrightarrow> msettles y z \<Longrightarrow> msettles x z"
  by (auto simp: msettles_def)

lemma exec_msettles:
  assumes "m < length (manuals s)"
  shows "m < length (manuals (exec e s)) \<and> msettles (manuals s ! m) (manuals (exec e s) ! m)"
proof (cases e)
  case Initialize
  then show ?thesis using assms
    by (simp add: initializeInstance_def msettles_refl split: option.splits)
next
  case Write
  then show ?thesis using assms by (simp add: asyncmuxClassMethod_manuals msettles_refl)
next
  case Read
  then show ?thesis using assms by (simp add: asyncmuxReadonlyClassMethod_manuals msettles_refl)
next
  case (ManualWrite options)
  obtain xs where "manuals (snd (manualLock asyncmuxClassMethod options s)) = manuals s @ xs"
    using manualLock_manuals [of asyncmuxClassMethod, OF asyncmuxClassMethod_manuals] by blast
  then show ?thesis using ManualWrite assms by (simp add: nth_append msettles_refl)
next
  case (ManualRead options)
  obtain xs where "manuals (snd (manualLock asyncmuxReadonlyClassMethod options s)) = manuals s @ xs"
    using manualLock_manuals [of asyncmuxReadonlyClassMethod, OF asyncmuxReadonlyClassMethod_manuals]
    by blast
  then show ?thesis using ManualRead assms by (simp add: nth_append msettles_refl)
next
  case (Begin i)
  show ?thesis
  proof (cases "wrapped (invocations s ! i)")
    case UserMethod
    then show ?thesis using Begin assms by (simp add: begin_body_def Let_def msettles_refl)
  next
    case (WaitForUnlock m')
    then show ?thesis using Begin assms
      by (cases "m' = m") (simp_all add: begin_body_def Let_def msettles_def)
  qed
next
  case (Finish i)
  then show ?thesis using assms by (simp add: finish_body_def Let_def call_frame msettles_refl)
next
  case (OnAbort m' r)
  then show ?thesis using assms
    by (cases "m' = m") (simp_all add: onAbort_def msettles_def)
next
  case (Unlock m')
  then show ?thesis using assms
    by (cases "m' = m")
       (simp_all add: unlock_def manual_handle_def new_AsyncmuxLock_def resolve_unlock_def
         msettles_def)
qed

lemma run_same_owner: "same_owner s t \<Longrightarrow> same_owner (fold exec es s) (fold exec es t)"
  by (induction es arbitrary: s t) (simp_all add: same_owner_exec)

lemma run_msettles:
  "m < length (manuals s) \<Longrightarrow>
   m < length (manuals (fold exec es s)) \<and> msettles (manuals s ! m) (manuals (fold exec es s) ! m)"
proof (induction es arbitrary: s)
  case Nil
  then show ?case by (simp add: msettles_refl)
next
  case (Cons e es)
  have 1: "m < length (manuals (exec e s))" "msettles (manuals s ! m) (manuals (exec e s) ! m)"
    using exec_msettles [OF Cons.prems, of e] by simp_all
  have 2: "m < length (manuals (fold exec es (exec e s)))"
    "msettles (manuals (exec e s) ! m) (manuals (fold exec es (exec e s)) ! m)"
    using Cons.IH [OF 1(1)] by simp_all
  show ?case using 2(1) msettles_trans [OF 1(2) 2(2)] by simp
qed

lemma same_owner_flags:
  "same_owner (onAbort m r s) s"
  "same_owner (resolve_unlock m s) s"
  by (simp_all add: same_owner_def onAbort_def resolve_unlock_def)

lemma same_owner_sym: "same_owner s t \<Longrightarrow> same_owner t s"
  by (simp add: same_owner_def)

lemma same_owner_trans: "same_owner s t \<Longrightarrow> same_owner t u \<Longrightarrow> same_owner s u"
  by (simp add: same_owner_def)

lemma manual_cancel:
  assumes m: "m < length (manuals t)"
    and l: "listening (manuals t ! m)"
    and p: "result (manuals t ! m) = Pending"
  shows "same_owner (onAbort m r t) t \<and>
    result (manuals (fold exec es (onAbort m r t)) ! m) = Rejected (AbortReason r) \<and>
    same_owner (fold exec es (onAbort m r t)) (fold exec es t) \<and>
    (i < length (invocations (fold exec es (onAbort m r t))) \<and>
     wrapped (invocations (fold exec es (onAbort m r t)) ! i) = WaitForUnlock m \<longrightarrow>
       can_finish i (fold exec es (onAbort m r t)) =
         (phase (invocations (fold exec es (onAbort m r t)) ! i) = Running)) \<and>
    same_owner (finish_body i (fold exec es (onAbort m r t)))
      (finish_body i (snd (unlock (manual_handle m) (fold exec es t))))"
proof -
  let ?c = "onAbort m r t"
  let ?u = "fold exec es ?c"
  let ?v = "fold exec es t"
  have c: "m < length (manuals ?c)" "result (manuals ?c ! m) = Rejected (AbortReason r)"
    "unlockPromise (manuals ?c ! m)"
    using m l p by (simp_all add: onAbort_def)
  have u: "m < length (manuals ?u)" "msettles (manuals ?c ! m) (manuals ?u ! m)"
    using run_msettles [OF c(1), of es] by simp_all
  have r: "result (manuals ?u ! m) = Rejected (AbortReason r)"
    and up: "unlockPromise (manuals ?u ! m)"
    using u(2) c by (simp_all add: msettles_def)
  have q: "same_owner ?u ?v"
    using run_same_owner [OF same_owner_flags(1)] .
  have v: "same_owner ?u (snd (unlock (manual_handle m) ?v))"
    using same_owner_trans [OF q same_owner_sym [OF same_owner_flags(2) [of m ?v]]]
    by (simp add: unlock_def manual_handle_def new_AsyncmuxLock_def)
  have f: "same_owner (exec (Finish i) ?u) (exec (Finish i) (snd (unlock (manual_handle m) ?v)))"
    using v by (rule same_owner_exec)
  show ?thesis
    using r up q f same_owner_flags(1) [of m r t]
    by (auto simp: can_finish_def)
qed


section \<open>Adjacent queue items differ in type\<close>

lemma type_preserved [simp]:
  "type (start it) = type it"
  "type (steps_shift it) = type it"
  "type (steps_push f it) = type it"
  "type (count_add n it) = type it"
  by (cases it; simp)+

lemma queue_ok_Nil: "queue_ok its []"
  by (simp add: queue_ok_def)

lemma queue_ok_single: "i < length its \<Longrightarrow> queue_ok its [i]"
  by (simp add: queue_ok_def)

lemma queue_ok_tl: "queue_ok its q \<Longrightarrow> queue_ok its (tl q)"
proof (cases q)
  case Nil
  then show "queue_ok its q \<Longrightarrow> queue_ok its (tl q)" by simp
next
  case (Cons i rest)
  assume "queue_ok its q"
  then show "queue_ok its (tl q)"
    using Cons by (auto simp: queue_ok_def dest: distinct_adj_ConsD)
qed

lemma queue_ok_same_types:
  assumes "queue_ok its q" and "same_types its its'"
  shows "queue_ok its' q"
proof -
  have eq: "map (\<lambda>i. type (its' ! i)) q = map (\<lambda>i. type (its ! i)) q"
    using assms by (intro map_cong) (auto simp: queue_ok_def same_types_def)
  show ?thesis
    unfolding queue_ok_def eq using assms by (auto simp: queue_ok_def same_types_def)
qed

lemma queue_ok_push:
  assumes "queue_ok its q"
    and "case latest q of None \<Rightarrow> True | Some l \<Rightarrow> type (its ! l) \<noteq> type it"
  shows "queue_ok (its @ [it]) (q @ [length its])"
proof -
  have old: "map (\<lambda>i. type ((its @ [it]) ! i)) q = map (\<lambda>i. type (its ! i)) q"
    using assms(1) by (intro map_cong) (auto simp: queue_ok_def nth_append)
  have tail: "q = [] \<or> last (map (\<lambda>i. type (its ! i)) q) \<noteq> type it"
    using assms(2) by (cases "q = []") (simp_all add: latest_def last_map)
  have "distinct_adj (map (\<lambda>i. type (its ! i)) q @ [type it])"
    using assms(1) tail by (auto simp: queue_ok_def distinct_adj_append_iff)
  then show ?thesis
    unfolding queue_ok_def using assms(1) by (simp add: old queue_ok_def less_Suc_eq)
qed



lemma same_types_append: "same_types its (its @ xs)"
  by (simp add: same_types_def nth_append)

lemma same_types_update: "type y = type (its ! w) \<Longrightarrow> same_types its (its[w := y])"
  by (cases "w < length its") (auto simp: same_types_def nth_list_update list_update_beyond)

subsection \<open>Queues of the instance form\<close>

lemma owner_ok_cong:
  assumes "owner_ok s" and "contexts s' = contexts s" and "same_types (items s) (items s')"
  shows "owner_ok s'"
  using assms by (auto simp: owner_ok_def intro: queue_ok_same_types)

lemma owner_ok_shift_start:
  assumes "owner_ok s"
  shows "owner_ok (shift_start c s)"
proof -
  let ?q = "tl (queue (contexts s ! c))"
  let ?s1 = "s\<lparr>contexts := (contexts s)[c := (contexts s ! c)\<lparr>queue := ?q\<rparr>]\<rparr>"
  have 1: "owner_ok ?s1"
    unfolding owner_ok_def
  proof (intro allI impI)
    fix c'
    assume "c' < length (contexts ?s1)"
    then have c': "c' < length (contexts s)" by simp
    show "queue_ok (items ?s1) (queue (contexts ?s1 ! c'))"
    proof (cases "c' = c")
      case True
      then show ?thesis using assms c' by (simp add: owner_ok_def queue_ok_tl)
    next
      case False
      then show ?thesis using assms c' by (simp add: owner_ok_def)
    qed
  qed
  show ?thesis
  proof (cases ?q)
    case Nil
    then show ?thesis using 1 by (simp add: shift_start_def Let_def)
  next
    case (Cons i rest)
    have "owner_ok (?s1\<lparr>items := (items ?s1)[i := start (items ?s1 ! i)]\<rparr>)"
      by (rule owner_ok_cong [OF 1]) (simp_all add: same_types_update)
    then show ?thesis using Cons by (simp add: shift_start_def Let_def)
  qed
qed

lemma owner_ok_call: "owner_ok s \<Longrightarrow> owner_ok (call f s)"
proof (induction f s rule: call.induct)
  case (1 p s)
  then show ?case by (simp add: owner_ok_def)
next
  case (2 r c s)
  let ?s1 = "s\<lparr>items := (items s)[r := count_add (- 1) (items s ! r)]\<rparr>"
  have 1: "owner_ok ?s1"
    by (rule owner_ok_cong [OF 2]) (simp_all add: same_types_update)
  show ?case using 2 1 owner_ok_shift_start [OF 1, of c] by (simp add: Let_def)
next
  case (3 w c s)
  show ?case
  proof (cases "w < length (items s)")
    case False
    then show ?thesis using 3(2) by simp
  next
    case True
    show ?thesis
    proof (cases "steps (items s ! w)")
      case Nil
      with True show ?thesis using 3(2) by (simp add: owner_ok_shift_start)
    next
      case (Cons step rest)
      let ?s1 = "s\<lparr>items := (items s)[w := steps_shift (items s ! w)]\<rparr>"
      have 1: "owner_ok ?s1"
        by (rule owner_ok_cong [OF 3(2)]) (simp_all add: same_types_update)
      have "owner_ok (call step ?s1)" using 3(1) [OF True Cons 1] .
      then show ?thesis using True Cons by simp
    qed
  qed
qed

lemma owner_ok_push_new:
  assumes "owner_ok s"
    and "c < length (contexts s) \<Longrightarrow>
      (case latest (queue (contexts s ! c)) of None \<Rightarrow> True
       | Some l \<Rightarrow> type (items s ! l) \<noteq> type it)"
  shows "owner_ok (snd (push_new it c s))"
  unfolding owner_ok_def
proof (intro allI impI)
  fix c'
  assume "c' < length (contexts (snd (push_new it c s)))"
  then have c': "c' < length (contexts s)" by (simp add: push_new_def)
  show "queue_ok (items (snd (push_new it c s))) (queue (contexts (snd (push_new it c s)) ! c'))"
  proof (cases "c' = c")
    case True
    then show ?thesis
      using assms c' by (simp add: push_new_def owner_ok_def queue_ok_push)
  next
    case False
    have "queue_ok (items s @ [it]) (queue (contexts s ! c'))"
      using assms(1) c' by (auto simp: owner_ok_def intro: queue_ok_same_types same_types_append)
    then show ?thesis using False c' by (simp add: push_new_def)
  qed
qed

lemma latest_type_cases:
  assumes "map_option (\<lambda>i. type (its ! i)) (latest q) = Some t"
  shows "\<exists>l. latest q = Some l \<and> type (its ! l) = t"
  using assms by (cases "latest q") auto

lemma owner_ok_asyncmuxClassMethod:
  assumes "owner_ok s"
  shows "owner_ok (snd (asyncmuxClassMethod m s))"
proof (cases "CONTEXT s")
  case None
  then show ?thesis using assms by (simp add: asyncmuxClassMethod_def)
next
  case (Some c)
  let ?q = "queue (contexts s ! c)"
  let ?t = "map_option (\<lambda>i. type (items s ! i)) (latest ?q)"
  show ?thesis
  proof (cases "lockType (contexts s ! c) = Some R \<or> lockType (contexts s ! c) = Some G \<or> ?t = Some G")
    case True
    then show ?thesis using assms Some by (auto simp: asyncmuxClassMethod_def)
  next
    case False
    let ?p = "case ?t of Some R \<Rightarrow> push_new (QueueItemW False []) c s
        | Some W \<Rightarrow> (last ?q, s) | _ \<Rightarrow> push_new (QueueItemW True []) c s"
    have 1: "owner_ok (snd ?p)"
    proof (cases ?t)
      case None
      then have "latest ?q = None" by simp
      then have "owner_ok (snd (push_new (QueueItemW True []) c s))"
        using assms by (intro owner_ok_push_new) simp_all
      then show ?thesis using None by simp
    next
      case (Some t)
      then obtain l where l: "latest ?q = Some l" "type (items s ! l) = t"
        using latest_type_cases [of "items s" ?q t] by blast
      show ?thesis
      proof (cases t)
        case W
        then show ?thesis using l assms by simp
      next
        case R
        have "owner_ok (snd (push_new (QueueItemW False []) c s))"
          using assms l R by (intro owner_ok_push_new) simp_all
        then show ?thesis using l R by simp
      next
        case G
        then show ?thesis using False Some by simp
      qed
    qed
    obtain w s1 where p: "?p = (w, s1)" by (cases ?p)
    have s1: "owner_ok s1" using 1 p by simp
    have r: "contexts (snd (asyncmuxClassMethod m s)) = contexts s1 \<and>
        (\<exists>y. items (snd (asyncmuxClassMethod m s)) = (items s1)[w := y] \<and>
           type y = type (items s1 ! w))"
      using False Some p
      by (cases ?t; cases "steps (items s1 ! w) = []")
         (auto simp: asyncmuxClassMethod_def Let_def split: tag.splits)
    then obtain y where e: "contexts (snd (asyncmuxClassMethod m s)) = contexts s1"
        "items (snd (asyncmuxClassMethod m s)) = (items s1)[w := y]"
      and ty: "type y = type (items s1 ! w)"
      by blast
    show ?thesis
      by (rule owner_ok_cong [OF s1]) (simp_all add: e same_types_update ty)
  qed
qed

lemma owner_ok_asyncmuxReadonlyClassMethod:
  assumes "owner_ok s"
  shows "owner_ok (snd (asyncmuxReadonlyClassMethod m s))"
proof (cases "CONTEXT s")
  case None
  then show ?thesis using assms by (simp add: asyncmuxReadonlyClassMethod_def)
next
  case (Some c)
  let ?q = "queue (contexts s ! c)"
  let ?t = "map_option (\<lambda>i. type (items s ! i)) (latest ?q)"
  show ?thesis
  proof (cases "?t = Some G")
    case True
    then show ?thesis using assms Some by (auto simp: asyncmuxReadonlyClassMethod_def)
  next
    case False
    let ?p = "case ?t of Some R \<Rightarrow> (last ?q, s)
        | Some W \<Rightarrow> push_new (QueueItemR False 0) c s | _ \<Rightarrow> push_new (QueueItemR True 0) c s"
    have 1: "owner_ok (snd ?p)"
    proof (cases ?t)
      case None
      then have "latest ?q = None" by simp
      then have "owner_ok (snd (push_new (QueueItemR True 0) c s))"
        using assms by (intro owner_ok_push_new) simp_all
      then show ?thesis using None by simp
    next
      case (Some t)
      then obtain l where l: "latest ?q = Some l" "type (items s ! l) = t"
        using latest_type_cases [of "items s" ?q t] by blast
      show ?thesis
      proof (cases t)
        case R
        then show ?thesis using l assms by simp
      next
        case W
        have "owner_ok (snd (push_new (QueueItemR False 0) c s))"
          using assms l W by (intro owner_ok_push_new) simp_all
        then show ?thesis using l W by simp
      next
        case G
        then show ?thesis using False Some by simp
      qed
    qed
    obtain w s1 where p: "?p = (w, s1)" by (cases ?p)
    have s1: "owner_ok s1" using 1 p by simp
    have r: "contexts (snd (asyncmuxReadonlyClassMethod m s)) = contexts s1 \<and>
        items (snd (asyncmuxReadonlyClassMethod m s))
          = (items s1)[w := count_add 1 (items s1 ! w)]"
      using False Some p
      by (cases ?t) (auto simp: asyncmuxReadonlyClassMethod_def Let_def split: tag.splits)
    show ?thesis
      by (rule owner_ok_cong [OF s1]) (simp_all add: r same_types_update)
  qed
qed

lemma owner_ok_initializeInstance: "owner_ok s \<Longrightarrow> owner_ok (initializeInstance s)"
  by (auto simp: owner_ok_def initializeInstance_def new_AsyncmuxContext_def nth_append
      queue_ok_Nil less_Suc_eq split: option.splits)

lemma owner_ok_manuals: "owner_ok (s\<lparr>manuals := x\<rparr>) = owner_ok s"
  by (simp add: owner_ok_def)

lemma owner_ok_manualLock:
  assumes d: "\<And>m s. owner_ok s \<Longrightarrow> owner_ok (snd (d m s))"
    and "owner_ok s"
  shows "owner_ok (snd (manualLock d options s))"
proof (cases "throwIfAborted options")
  case (Some e)
  then show ?thesis using assms(2) by (simp add: manualLock_def)
next
  case None
  let ?s1 = "initializeInstance (s\<lparr>manuals := manuals s @
      [\<lparr>listening = (options \<noteq> NoSignal), result = Pending, unlockPromise = False\<rparr>]\<rparr>)"
  have "owner_ok ?s1"
    using assms(2) by (intro owner_ok_initializeInstance) (simp add: owner_ok_manuals)
  then have "owner_ok (snd (d (WaitForUnlock (length (manuals s))) ?s1))" by (rule d)
  then show ?thesis
    using None
    by (cases "fst (d (WaitForUnlock (length (manuals s))) ?s1)")
       (simp_all add: manualLock_def Let_def split_def owner_ok_manuals)
qed

lemma owner_ok_exec:
  assumes "owner_ok s"
  shows "owner_ok (exec e s)"
proof (cases e)
  case Initialize
  then show ?thesis using assms by (simp add: owner_ok_initializeInstance)
next
  case Write
  then show ?thesis using assms by (simp add: owner_ok_asyncmuxClassMethod)
next
  case Read
  then show ?thesis using assms by (simp add: owner_ok_asyncmuxReadonlyClassMethod)
next
  case (ManualWrite options)
  then show ?thesis
    using owner_ok_manualLock [of asyncmuxClassMethod s options,
        OF owner_ok_asyncmuxClassMethod assms]
    by simp
next
  case (ManualRead options)
  then show ?thesis
    using owner_ok_manualLock [of asyncmuxReadonlyClassMethod s options,
        OF owner_ok_asyncmuxReadonlyClassMethod assms]
    by simp
next
  case (Begin i)
  then show ?thesis using assms
    by (auto simp: begin_body_def Let_def owner_ok_def new_AsyncmuxContext_def nth_append
        queue_ok_Nil less_Suc_eq split: body.splits)
next
  case (Finish i)
  have "owner_ok (s\<lparr>CONTEXT := Some (captured (invocations s ! i))\<rparr>)"
    using assms by (simp add: owner_ok_def)
  then have "owner_ok (call (release (invocations s ! i))
      (s\<lparr>CONTEXT := Some (captured (invocations s ! i))\<rparr>))"
    by (rule owner_ok_call)
  then show ?thesis using Finish by (simp add: finish_body_def Let_def owner_ok_def)
next
  case (OnAbort m r)
  then show ?thesis using assms by (simp add: onAbort_def owner_ok_def)
next
  case (Unlock m)
  then show ?thesis using assms
    by (simp add: unlock_def manual_handle_def new_AsyncmuxLock_def resolve_unlock_def
        owner_ok_def)
qed

lemma reachable_owner_ok: "reachable s \<Longrightarrow> owner_ok s"
proof (induction rule: reachable.induct)
  case init
  show ?case by (simp add: owner_ok_def new_owner_def)
next
  case (step s e)
  then show ?case by (simp add: owner_ok_exec)
qed


subsection \<open>Queues of the keyed form\<close>

lemma mux_ok_cong:
  assumes "mux_ok s" and "queues s' = queues s" and "same_types (items s) (items s')"
  shows "mux_ok s'"
  using assms by (auto simp: mux_ok_def intro: queue_ok_same_types)

lemma mux_ok_shift_queue:
  assumes "mux_ok s"
  shows "mux_ok (shift_queue q key s)"
proof -
  let ?rest = "tl (queues s ! q)"
  let ?s1 = "s\<lparr>queues := (queues s)[q := ?rest]\<rparr>"
  have 1: "mux_ok ?s1"
    unfolding mux_ok_def
  proof (intro conjI allI impI)
    show "queues ?s1 \<noteq> []" using assms by (simp add: mux_ok_def)
  next
    fix q'
    assume "q' < length (queues ?s1)"
    then have q': "q' < length (queues s)" by simp
    show "queue_ok (items ?s1) (queues ?s1 ! q')"
    proof (cases "q' = q")
      case True
      then show ?thesis using assms q' by (simp add: mux_ok_def queue_ok_tl)
    next
      case False
      then show ?thesis using assms q' by (simp add: mux_ok_def)
    qed
  qed
  show ?thesis
  proof (cases ?rest)
    case Nil
    have "mux_ok (?s1\<lparr>partialQueue := x\<rparr>)" for x using 1 by (simp add: mux_ok_def)
    then show ?thesis using Nil 1 by (cases key) (simp_all add: shift_queue_def Let_def)
  next
    case (Cons i rest)
    have "mux_ok (?s1\<lparr>items := (items ?s1)[i := start (items ?s1 ! i)]\<rparr>)"
      by (rule mux_ok_cong [OF 1]) (simp_all add: same_types_update)
    then show ?thesis using Cons by (simp add: shift_queue_def Let_def)
  qed
qed

lemma mux_ok_kcall: "mux_ok s \<Longrightarrow> mux_ok (kcall f s)"
proof (induction f s rule: kcall.induct)
  case (1 p s)
  then show ?case by (simp add: mux_ok_def)
next
  case (2 q k s)
  then show ?case by (simp add: mux_ok_shift_queue)
next
  case (3 r q key s)
  let ?s1 = "s\<lparr>items := (items s)[r := count_add (- 1) (items s ! r)]\<rparr>"
  have 1: "mux_ok ?s1"
    by (rule mux_ok_cong [OF 3]) (simp_all add: same_types_update)
  show ?case using 3 1 mux_ok_shift_queue [OF 1, of q key] by (simp add: Let_def)
next
  case (4 w q key s)
  show ?case
  proof (cases "w < length (items s)")
    case False
    then show ?thesis using 4(2) by simp
  next
    case True
    show ?thesis
    proof (cases "steps (items s ! w)")
      case Nil
      with True show ?thesis using 4(2) by (simp add: mux_ok_shift_queue)
    next
      case (Cons step rest)
      let ?s1 = "s\<lparr>items := (items s)[w := steps_shift (items s ! w)]\<rparr>"
      have 1: "mux_ok ?s1"
        by (rule mux_ok_cong [OF 4(2)]) (simp_all add: same_types_update)
      have "mux_ok (kcall step ?s1)" using 4(1) [OF True Cons 1] .
      then show ?thesis using True Cons by simp
    qed
  qed
qed

lemma mux_ok_fold_kcall: "mux_ok s \<Longrightarrow> mux_ok (fold kcall fs s)"
  by (induction fs arbitrary: s) (simp_all add: mux_ok_kcall)

lemma mux_ok_queue_push:
  assumes "mux_ok s"
    and "q < length (queues s) \<Longrightarrow>
      (case latest (queues s ! q) of None \<Rightarrow> True | Some l \<Rightarrow> type (items s ! l) \<noteq> type it)"
  shows "mux_ok (snd (queue_push it q s))"
  unfolding mux_ok_def
proof (intro conjI allI impI)
  show "queues (snd (queue_push it q s)) \<noteq> []"
    using assms(1) by (simp add: queue_push_def mux_ok_def)
next
  fix q'
  assume "q' < length (queues (snd (queue_push it q s)))"
  then have q': "q' < length (queues s)" by (simp add: queue_push_def)
  show "queue_ok (items (snd (queue_push it q s))) (queues (snd (queue_push it q s)) ! q')"
  proof (cases "q' = q")
    case True
    then show ?thesis
      using assms q' by (simp add: queue_push_def mux_ok_def queue_ok_push)
  next
    case False
    have "queue_ok (items s @ [it]) (queues s ! q')"
      using assms(1) q' by (auto simp: mux_ok_def intro: queue_ok_same_types same_types_append)
    then show ?thesis using False q' by (simp add: queue_push_def)
  qed
qed

lemma mux_ok_items_update:
  "mux_ok s \<Longrightarrow> type y = type (items s ! w) \<Longrightarrow> mux_ok (s\<lparr>items := (items s)[w := y]\<rparr>)"
  by (rule mux_ok_cong [of s]) (simp_all add: same_types_update)

lemma mux_ok_other_fields:
  "mux_ok (s\<lparr>promises := p\<rparr>) = mux_ok s"
  "mux_ok (s\<lparr>acquisitions := a\<rparr>) = mux_ok s"
  "mux_ok (s\<lparr>thens := t\<rparr>) = mux_ok s"
  "mux_ok (s\<lparr>partialQueue := m\<rparr>) = mux_ok s"
  by (simp_all add: mux_ok_def)

text \<open>The item an arrival works on: the tail if it has the arriving tag, else a new item.\<close>

lemma mux_ok_tail_or_push:
  assumes "mux_ok s" and "type it = t" and "type it' = t"
  shows "mux_ok (snd (case latest (queues s ! q) of
      None \<Rightarrow> queue_push it' q s
    | Some l \<Rightarrow> if type (items s ! l) \<noteq> t then queue_push it q s else (l, s)))"
proof (cases "latest (queues s ! q)")
  case None
  then have "mux_ok (snd (queue_push it' q s))"
    using assms(1) by (intro mux_ok_queue_push) simp_all
  then show ?thesis using None by simp
next
  case (Some l)
  show ?thesis
  proof (cases "type (items s ! l) \<noteq> t")
    case True
    then have "mux_ok (snd (queue_push it q s))"
      using assms Some by (intro mux_ok_queue_push) simp_all
    then show ?thesis using Some True by simp
  next
    case False
    then show ?thesis using Some assms(1) by simp
  qed
qed

lemma mux_ok_lock_entry:
  assumes "mux_ok s"
  shows "mux_ok (snd (lock_entry e s))"
proof -
  obtain key q where e: "e = (key, q)" by (cases e)
  let ?p = "case latest (queues s ! q) of
      None \<Rightarrow> queue_push (QueueItemW True []) q s
    | Some l \<Rightarrow> if type (items s ! l) \<noteq> W then queue_push (QueueItemW False []) q s else (l, s)"
  obtain w s1 where p: "?p = (w, s1)" by (cases ?p)
  have "mux_ok (snd ?p)"
    using mux_ok_tail_or_push [of s "QueueItemW False []" W "QueueItemW True []" q] assms by simp
  then have s1: "mux_ok s1" using p by simp
  show ?thesis
    using s1 by (simp add: lock_entry_def e p Let_def mux_ok_items_update mux_ok_other_fields)
qed

lemma mux_ok_rLock_entry:
  assumes "mux_ok s"
  shows "mux_ok (snd (rLock_entry e s))"
proof -
  obtain key q where e: "e = (key, q)" by (cases e)
  let ?p = "case latest (queues s ! q) of
      None \<Rightarrow> queue_push (QueueItemR True 0) q s
    | Some l \<Rightarrow> if type (items s ! l) \<noteq> R then queue_push (QueueItemR False 0) q s else (l, s)"
  obtain w s1 where p: "?p = (w, s1)" by (cases ?p)
  have "mux_ok (snd ?p)"
    using mux_ok_tail_or_push [of s "QueueItemR False 0" R "QueueItemR True 0" q] assms by simp
  then have s1: "mux_ok s1" using p by simp
  show ?thesis
    using s1 by (simp add: rLock_entry_def e p Let_def mux_ok_items_update)
qed

lemma mux_ok_for_entries:
  assumes "\<And>e s. mux_ok s \<Longrightarrow> mux_ok (snd (f e s))"
  shows "mux_ok s \<Longrightarrow> mux_ok (snd (for_entries f es s))"
proof (induction es arbitrary: s)
  case Nil
  then show ?case by simp
next
  case (Cons e es)
  have "mux_ok (snd (f e s))" using Cons.prems by (rule assms)
  then have "mux_ok (snd (for_entries f es (snd (f e s))))" by (rule Cons.IH)
  then show ?case by (simp add: split_def Let_def)
qed

lemma mux_ok_getQueueEntries:
  assumes "mux_ok s"
  shows "mux_ok (snd (getQueueEntries key s))"
proof (cases key)
  case None
  then show ?thesis using assms by (simp add: getQueueEntries_def)
next
  case (Some k)
  show ?thesis
  proof (cases "map_of (partialQueue s) k")
    case (Some q)
    then show ?thesis using assms \<open>key = Some k\<close> by (simp add: getQueueEntries_def)
  next
    case None
    let ?p = "case latest (queues s ! 0) of
        None \<Rightarrow> queue_push (QueueItemG True) 0 s
      | Some l \<Rightarrow> if type (items s ! l) \<noteq> G then queue_push (QueueItemG False) 0 s else (l, s)"
    obtain g s1 where p: "?p = (g, s1)" by (cases ?p)
    have "mux_ok (snd ?p)"
      using mux_ok_tail_or_push [of s "QueueItemG False" G "QueueItemG True" 0] assms by simp
    then have s1: "mux_ok s1" using p by simp
    have g: "g < length (items s1)"
    proof (cases "latest (queues s ! 0)")
      case None
      then show ?thesis using p by (auto simp: queue_push_def)
    next
      case (Some l)
      have "l \<in> set (queues s ! 0)" using Some by (auto simp: latest_def split: if_splits)
      then have "l < length (items s)" using assms by (auto simp: mux_ok_def queue_ok_def)
      then show ?thesis using Some p by (auto simp: queue_push_def split: if_splits)
    qed
    have "mux_ok (s1\<lparr>queues := queues s1 @ [[g]]\<rparr>)"
      using s1 g by (auto simp: mux_ok_def nth_append queue_ok_single less_Suc_eq)
    then show ?thesis
      using None \<open>key = Some k\<close> p
      by (simp add: getQueueEntries_def Let_def mux_ok_def)
  qed
qed

lemma mux_ok_acquire:
  assumes "\<And>e s. mux_ok s \<Longrightarrow> mux_ok (snd (f e s))" and "mux_ok s"
  shows "mux_ok (snd (acquire f key options s))"
proof (cases "throwIfAborted options")
  case (Some e)
  then show ?thesis using assms(2) by (simp add: acquire_def)
next
  case None
  have "mux_ok (snd (for_entries f (fst (getQueueEntries key s)) (snd (getQueueEntries key s))))"
    using mux_ok_for_entries [of f, OF assms(1)] mux_ok_getQueueEntries [OF assms(2)] by simp
  then show ?thesis using None by (simp add: acquire_def split_def Let_def mux_ok_def)
qed

lemma mux_ok_kexec:
  assumes "mux_ok s"
  shows "mux_ok (kexec e s)"
proof (cases e)
  case (Lock key options)
  then show ?thesis
    using mux_ok_acquire [of lock_entry s key options, OF mux_ok_lock_entry assms]
    by (simp add: lock_def)
next
  case (RLock key options)
  then show ?thesis
    using mux_ok_acquire [of rLock_entry s key options, OF mux_ok_rLock_entry assms]
    by (simp add: rLock_def)
next
  case (RunThen n)
  obtain g f fired where n: "thens s ! n = (g, f, fired)" by (cases "thens s ! n")
  have "mux_ok (kcall f s)" using assms by (rule mux_ok_kcall)
  then show ?thesis using RunThen by (simp add: run_then_def n Let_def mux_ok_def)
next
  case (Grant a)
  then show ?thesis using assms by (simp add: grant_def mux_ok_def)
next
  case (Abort a r)
  then show ?thesis using assms by (simp add: abort_def mux_ok_def)
next
  case (Release a)
  then show ?thesis using assms
    by (simp add: unlock_def lock_handle_def new_AsyncmuxLock_def kresolve_unlock_def mux_ok_def)
next
  case (Finalize a)
  have "mux_ok (fold kcall (nextFuncList (acquisitions s ! a)) s)"
    using assms by (rule mux_ok_fold_kcall)
  then show ?thesis using Finalize by (simp add: finalize_def Let_def mux_ok_def)
qed

lemma kreachable_mux_ok: "kreachable s \<Longrightarrow> mux_ok s"
proof (induction rule: kreachable.induct)
  case kinit
  show ?case by (simp add: mux_ok_def new_Asyncmux_def queue_ok_Nil)
next
  case (kstep s e)
  then show ?case by (simp add: mux_ok_kexec)
qed


lemma run_reachable: "reachable s \<Longrightarrow> run_ok es s \<Longrightarrow> reachable (fold exec es s)"
  by (induction es arbitrary: s) (simp_all add: reachable.step)

lemma krun_reachable: "kreachable s \<Longrightarrow> krun_ok es s \<Longrightarrow> kreachable (fold kexec es s)"
  by (induction es arbitrary: s) (simp_all add: kreachable.kstep)

text \<open>
  C5. In every state an owner can reach, and in every state a keyed mux can reach, no
  queue has two adjacent items of the same type. And an arrival that finds an item of
  its own type at the tail creates no item and appends nothing: it joins the tail item.
\<close>

theorem adjacent_items_differ:
  "(reachable s \<and> c < length (contexts s) \<longrightarrow>
      distinct_adj (map (\<lambda>i. type (items s ! i)) (queue (contexts s ! c)))) \<and>
   (kreachable t \<and> q < length (queues t) \<longrightarrow>
      distinct_adj (map (\<lambda>i. type (items t ! i)) (queues t ! q))) \<and>
   (CONTEXT s = Some c \<and> latest (queue (contexts s ! c)) = Some l \<and> type (items s ! l) = W \<and>
    lockType (contexts s ! c) \<noteq> Some R \<and> lockType (contexts s ! c) \<noteq> Some G \<longrightarrow>
      contexts (snd (asyncmuxClassMethod m s)) = contexts s \<and>
      length (items (snd (asyncmuxClassMethod m s))) = length (items s)) \<and>
   (CONTEXT s = Some c \<and> latest (queue (contexts s ! c)) = Some l \<and> type (items s ! l) = R \<longrightarrow>
      contexts (snd (asyncmuxReadonlyClassMethod m s)) = contexts s \<and>
      length (items (snd (asyncmuxReadonlyClassMethod m s))) = length (items s)) \<and>
   (latest (queues t ! q) = Some l \<and> type (items t ! l) = W \<longrightarrow>
      queues (snd (lock_entry (key, q) t)) = queues t \<and>
      length (items (snd (lock_entry (key, q) t))) = length (items t)) \<and>
   (latest (queues t ! q) = Some l \<and> type (items t ! l) = R \<longrightarrow>
      queues (snd (rLock_entry (key, q) t)) = queues t \<and>
      length (items (snd (rLock_entry (key, q) t))) = length (items t))"
proof -
  have 1: "reachable s \<and> c < length (contexts s) \<longrightarrow>
      distinct_adj (map (\<lambda>i. type (items s ! i)) (queue (contexts s ! c)))"
    using reachable_owner_ok [of s] by (auto simp: owner_ok_def queue_ok_def)
  have 2: "kreachable t \<and> q < length (queues t) \<longrightarrow>
      distinct_adj (map (\<lambda>i. type (items t ! i)) (queues t ! q))"
    using kreachable_mux_ok [of t] by (auto simp: mux_ok_def queue_ok_def)
  have 3: "CONTEXT s = Some c \<and> latest (queue (contexts s ! c)) = Some l \<and>
      type (items s ! l) = W \<and>
      lockType (contexts s ! c) \<noteq> Some R \<and> lockType (contexts s ! c) \<noteq> Some G \<longrightarrow>
      contexts (snd (asyncmuxClassMethod m s)) = contexts s \<and>
      length (items (snd (asyncmuxClassMethod m s))) = length (items s)"
    by (simp add: asyncmuxClassMethod_def Let_def)
  have 4: "CONTEXT s = Some c \<and> latest (queue (contexts s ! c)) = Some l \<and>
      type (items s ! l) = R \<longrightarrow>
      contexts (snd (asyncmuxReadonlyClassMethod m s)) = contexts s \<and>
      length (items (snd (asyncmuxReadonlyClassMethod m s))) = length (items s)"
    by (simp add: asyncmuxReadonlyClassMethod_def Let_def)
  have 5: "latest (queues t ! q) = Some l \<and> type (items t ! l) = W \<longrightarrow>
      queues (snd (lock_entry (key, q) t)) = queues t \<and>
      length (items (snd (lock_entry (key, q) t))) = length (items t)"
    by (simp add: lock_entry_def Let_def)
  have 6: "latest (queues t ! q) = Some l \<and> type (items t ! l) = R \<longrightarrow>
      queues (snd (rLock_entry (key, q) t)) = queues t \<and>
      length (items (snd (rLock_entry (key, q) t))) = length (items t)"
    by (simp add: rLock_entry_def Let_def)
  show ?thesis using 1 2 3 4 5 6 by blast
qed

theorem adjacent_items_differ_witness:
  "reachable mixed_arrivals \<and> 0 < length (contexts mixed_arrivals) \<and>
   map (\<lambda>i. type (items mixed_arrivals ! i)) (queue (contexts mixed_arrivals ! 0)) = [W, R, W, R] \<and>
   distinct_adj (map (\<lambda>i. type (items mixed_arrivals ! i)) (queue (contexts mixed_arrivals ! 0))) \<and>
   kreachable barrier_arrivals \<and> 1 < length (queues barrier_arrivals) \<and>
   map (\<lambda>i. type (items barrier_arrivals ! i)) (queues barrier_arrivals ! 1) = [G, W, R] \<and>
   distinct_adj (map (\<lambda>i. type (items barrier_arrivals ! i)) (queues barrier_arrivals ! 1)) \<and>
   latest (queues barrier_arrivals ! 2) = Some 3 \<and> type (items barrier_arrivals ! 3) = W \<and>
   queues (snd (lock_entry (None, 2) barrier_arrivals)) = queues barrier_arrivals"
proof -
  have r: "reachable mixed_arrivals"
    unfolding mixed_arrivals_def by (rule run_reachable [OF reachable.init]) code_simp
  have k: "kreachable barrier_arrivals"
    unfolding barrier_arrivals_def by (rule krun_reachable [OF kreachable.kinit]) code_simp
  have e: "0 < length (contexts mixed_arrivals)"
    "map (\<lambda>i. type (items mixed_arrivals ! i)) (queue (contexts mixed_arrivals ! 0)) = [W, R, W, R]"
    "1 < length (queues barrier_arrivals)"
    "map (\<lambda>i. type (items barrier_arrivals ! i)) (queues barrier_arrivals ! 1) = [G, W, R]"
    "latest (queues barrier_arrivals ! 2) = Some 3" "type (items barrier_arrivals ! 3) = W"
    by code_simp+
  show ?thesis
    using r k e adjacent_items_differ [of mixed_arrivals 0 barrier_arrivals 1 3 UserMethod None]
      adjacent_items_differ [of mixed_arrivals 0 barrier_arrivals 2 3 UserMethod None]
    by simp
qed

section \<open>Exclusive acquisitions launched together\<close>

lemma item_after_shift [simp]:
  "steps (steps_shift it) = tl (steps it)"
  "ready (steps_shift it) = ready it"
  by (cases it; simp)+

lemma item_after_push [simp]:
  "ready (steps_push f it) = ready it"
  "type it = W \<Longrightarrow> steps (steps_push f it) = steps it @ [f]"
  by (cases it; simp)+

lemma call_Next_empty:
  "w < length (items s) \<Longrightarrow> steps (items s ! w) = [] \<Longrightarrow> call (Next w c) s = shift_start c s"
  by simp

lemma call_Next_Resolve:
  "w < length (items s) \<Longrightarrow> steps (items s ! w) = Resolve r # rest \<Longrightarrow>
   call (Next w c) s =
     s\<lparr>items := (items s)[w := steps_shift (items s ! w)], promises := (promises s)[r := True]\<rparr>"
  by simp

lemma call_Next_Next:
  "w < length (items s) \<Longrightarrow> steps (items s ! w) = Next w c # rest \<Longrightarrow>
   call (Next w c) s = call (Next w c) (s\<lparr>items := (items s)[w := steps_shift (items s ! w)]\<rparr>)"
  by simp

lemma serving_can_begin:
  assumes "serving c w p b N n s" and "j < N"
  shows "can_begin (b + j) s = (n = 2 * j)"
proof -
  have iv: "invocations s ! (b + j) =
      writer_call c w p j
        (if 2 * j + 1 < n then Finished else if 2 * j < n then Running else Waiting)"
    and len: "b + j < length (invocations s)" and r: "ready (items s ! w)"
    using assms by (simp_all add: serving_def)
  show ?thesis
  proof (cases j)
    case 0
    then show ?thesis using iv len r by (auto simp: can_begin_def is_ready_def writer_call_def)
  next
    case (Suc j')
    then have "j' < N - 1" using assms(2) by simp
    then have pr: "promises s ! (p + j') = (j' < n div 2)" using assms(1) by (simp add: serving_def)
    have "(2 * j \<le> n \<and> n \<le> 2 * j) = (n = 2 * j)" by auto
    moreover have "(j' < n div 2) = (2 * j \<le> n)" using Suc by auto
    ultimately show ?thesis
      using iv len r pr Suc
      by (auto simp: can_begin_def is_ready_def writer_call_def)
  qed
qed

lemma serving_can_finish:
  assumes "serving c w p b N n s" and "j < N"
  shows "can_finish (b + j) s = (n = 2 * j + 1)"
proof -
  have iv: "invocations s ! (b + j) =
      writer_call c w p j
        (if 2 * j + 1 < n then Finished else if 2 * j < n then Running else Waiting)"
    and len: "b + j < length (invocations s)"
    using assms by (simp_all add: serving_def)
  show ?thesis using iv len by (auto simp: can_finish_def writer_call_def)
qed

lemma serving_begin:
  assumes sv: "serving c w p b N (2 * j) s" and j: "j < N"
  shows "serving c w p b N (2 * j + 1) (begin_body (b + j) s)"
proof -
  have iv: "\<And>j'. j' < N \<Longrightarrow> invocations s ! (b + j') =
      writer_call c w p j'
        (if 2 * j' + 1 < 2 * j then Finished else if 2 * j' < 2 * j then Running else Waiting)"
    and len: "b + N \<le> length (invocations s)"
    using sv by (simp_all add: serving_def)
  have ivj: "invocations s ! (b + j) = writer_call c w p j Waiting"
    using iv [OF j] by simp
  let ?s1 = "s\<lparr>CONTEXT := Some (length (contexts s)),
      contexts := contexts s @ [new_AsyncmuxContext (Some W)],
      invocations := (invocations s)[b + j := writer_call c w p j Running]\<rparr>"
  have b: "begin_body (b + j) s = ?s1"
    by (simp add: begin_body_def Let_def ivj writer_call_def)
  have inv: "invocations ?s1 ! (b + j') =
      writer_call c w p j'
        (if 2 * j' + 1 < 2 * j + 1 then Finished else if 2 * j' < 2 * j + 1 then Running else Waiting)"
    if "j' < N" for j'
  proof (cases "j' = j")
    case True
    then show ?thesis using len j by simp
  next
    case False
    then have "(2 * j' + 1 < 2 * j + 1) = (2 * j' + 1 < 2 * j)" "(2 * j' < 2 * j + 1) = (2 * j' < 2 * j)"
      by auto
    then show ?thesis using iv [OF that] False by simp
  qed
  have d: "(2 * j + 1) div 2 = j" by simp
  have st: "(if 2 * j + 1 < 2 then Next w c # map Resolve [p ..< p + N - 1]
         else map Resolve [p + (2 * j + 1) div 2 ..< p + N - 1])
      = (if 2 * j < 2 then Next w c # map Resolve [p ..< p + N - 1]
         else map Resolve [p + (2 * j) div 2 ..< p + N - 1])"
    by (cases j) simp_all
  show ?thesis
    unfolding b serving_def
    using sv j inv st by (simp add: serving_def nth_append d del: One_nat_def)
qed

lemma shift_start_single:
  assumes "c < length (contexts s)" and "queue (contexts s ! c) = [w]"
  shows "shift_start c s = s\<lparr>contexts := (contexts s)[c := (contexts s ! c)\<lparr>queue := []\<rparr>]\<rparr>"
  using assms by (simp add: shift_start_def Let_def)

lemma serving_finish:
  assumes sv: "serving c w p b N (2 * j + 1) s" and j: "j < N"
  shows "serving c w p b N (2 * j + 2) (finish_body (b + j) s)"
proof -
  have iv: "\<And>j'. j' < N \<Longrightarrow> invocations s ! (b + j') =
      writer_call c w p j'
        (if 2 * j' + 1 < 2 * j + 1 then Finished
         else if 2 * j' < 2 * j + 1 then Running else Waiting)"
    and len: "b + N \<le> length (invocations s)"
    and w: "w < length (items s)" and rd: "ready (items s ! w)"
    and pl: "p + N - 1 \<le> length (promises s)"
    and pr: "\<And>i. i < N - 1 \<Longrightarrow> promises s ! (p + i) = (i < j)"
    and c: "c < length (contexts s)" and q: "queue (contexts s ! c) = [w]"
    using sv j by (simp_all add: serving_def)
  have st: "steps (items s ! w) =
      (if j = 0 then Next w c # map Resolve [p ..< p + N - 1]
       else map Resolve [p + j ..< p + N - 1])"
    using sv by (simp add: serving_def)
  have ivj: "invocations s ! (b + j) = writer_call c w p j Running"
    using iv [OF j] by simp
  let ?s0 = "s\<lparr>CONTEXT := Some c\<rparr>"
  have fb: "finish_body (b + j) s =
      (call (Next w c) ?s0)\<lparr>invocations :=
         (invocations (call (Next w c) ?s0))[b + j :=
            (invocations (call (Next w c) ?s0) ! (b + j))\<lparr>phase := Finished\<rparr>]\<rparr>"
    by (simp add: finish_body_def Let_def ivj writer_call_def del: call.simps)
  let ?it = "if j = 0 then steps_shift (items s ! w) else items s ! w"
  let ?s1 = "?s0\<lparr>items := (items s)[w := ?it]\<rparr>"
  have c1: "call (Next w c) ?s0 = call (Next w c) ?s1"
  proof (cases "j = 0")
    case True
    then show ?thesis using call_Next_Next [of w ?s0 c] w st by simp
  next
    case False
    then show ?thesis by simp
  qed
  have st1: "steps (items ?s1 ! w) = map Resolve [p + j ..< p + N - 1]"
    using w st by (cases "j = 0") simp_all
  have rd1: "ready (items ?s1 ! w)" using w rd by simp
  have w1: "w < length (items ?s1)" using w by simp
  show ?thesis
  proof (cases "j + 1 = N")
    case True
    then have e: "steps (items ?s1 ! w) = []" using st1 by simp
    have "call (Next w c) ?s1 = shift_start c ?s1"
      using call_Next_empty [OF w1 e] .
    also have "\<dots> = ?s1\<lparr>contexts := (contexts s)[c := (contexts s ! c)\<lparr>queue := []\<rparr>]\<rparr>"
      using shift_start_single [of c ?s1 w] c q by simp
    finally have call: "call (Next w c) ?s0
        = ?s1\<lparr>contexts := (contexts s)[c := (contexts s ! c)\<lparr>queue := []\<rparr>]\<rparr>"
      using c1 by simp
    have inv: "(invocations s)[b + j := (invocations s ! (b + j))\<lparr>phase := Finished\<rparr>] ! (b + j')
        = writer_call c w p j'
          (if 2 * j' + 1 < 2 * j + 2 then Finished
           else if 2 * j' < 2 * j + 2 then Running else Waiting)"
      if "j' < N" for j'
    proof (cases "j' = j")
      case True
      then show ?thesis using len j ivj by (simp add: writer_call_def)
    next
      case False
      then have "j' < j" using that True by simp
      then show ?thesis using iv [OF that] False by simp
    qed
    show ?thesis
      unfolding fb call serving_def
      using True w1 rd1 e j len pl pr c inv
      by (auto simp: ivj writer_call_def)
  next
    case False
    then have lt: "p + j < p + N - 1" using j by simp
    then have e: "steps (items ?s1 ! w) = Resolve (p + j) # map Resolve [p + j + 1 ..< p + N - 1]"
      using st1 by (simp add: upt_conv_Cons)
    have call: "call (Next w c) ?s0 =
        ?s1\<lparr>items := (items ?s1)[w := steps_shift (items ?s1 ! w)],
            promises := (promises ?s1)[p + j := True]\<rparr>"
      using call_Next_Resolve [OF w1 e] c1 by simp
    have inv: "(invocations s)[b + j := (invocations s ! (b + j))\<lparr>phase := Finished\<rparr>] ! (b + j')
        = writer_call c w p j'
          (if 2 * j' + 1 < 2 * j + 2 then Finished
           else if 2 * j' < 2 * j + 2 then Running else Waiting)"
      if "j' < N" for j'
    proof (cases "j' = j")
      case True
      then show ?thesis using len j ivj by (simp add: writer_call_def)
    next
      case False
      then have "(2 * j' + 1 < 2 * j + 2) = (2 * j' + 1 < 2 * j + 1)"
        "(2 * j' < 2 * j + 2) = (2 * j' < 2 * j + 1)"
        by auto
      then show ?thesis using iv [OF that] False by simp
    qed
    have prom: "(promises s)[p + j := True] ! (p + i) = (i < j + 1)" if "i < N - 1" for i
    proof (cases "i = j")
      case True
      then show ?thesis using pl that by simp
    next
      case False
      then show ?thesis using pr [OF that] by (auto simp: nth_list_update)
    qed
    show ?thesis
      unfolding fb call serving_def
      using w rd1 e j len pl c q inv prom False
      by (simp add: ivj writer_call_def)
  qed
qed

lemma first_arrival:
  assumes "idle c s"
  shows "arrived c (length (items s)) (length (promises s)) (length (invocations s)) 1
           (exec Write s)"
  using assms
  by (simp add: idle_def arrived_def serving_def asyncmuxClassMethod_def latest_def
      push_new_def writer_call_def nth_append)

lemma next_arrival:
  assumes a: "arrived c w p b N s"
  shows "arrived c w p b (Suc N) (exec Write s)"
proof -
  have sv: "serving c w p b N 0 s" and cx: "CONTEXT s = Some c"
    and lt: "lockType (contexts s ! c) \<noteq> Some R" "lockType (contexts s ! c) \<noteq> Some G"
    and ty: "type (items s ! w) = W" and li: "length (invocations s) = b + N"
    and lp: "length (promises s) = p + N - 1" and N: "0 < N"
    using a by (simp_all add: arrived_def)
  have q: "queue (contexts s ! c) = [w]" and w: "w < length (items s)"
    and st: "steps (items s ! w) = Next w c # map Resolve [p ..< p + N - 1]"
    and rd: "ready (items s ! w)" and c: "c < length (contexts s)"
    and iv: "\<And>j. j < N \<Longrightarrow> invocations s ! (b + j) = writer_call c w p j Waiting"
    and pr: "\<And>i. i < N - 1 \<Longrightarrow> \<not> promises s ! (p + i)"
    using sv N by (simp_all add: serving_def)
  let ?t = "s\<lparr>items := (items s)[w := steps_push (Resolve (p + N - 1)) (items s ! w)],
      promises := promises s @ [False],
      invocations := invocations s @ [writer_call c w p N Waiting]\<rparr>"
  have e: "exec Write s = ?t"
    using cx lt q ty st N lp
    by (simp add: asyncmuxClassMethod_def latest_def writer_call_def)
  have "[p ..< p + N - 1] @ [p + N - 1] = [p ..< p + Suc N - 1]"
    using N by (cases N) simp_all
  from arg_cong [OF this, of "map Resolve"]
  have up: "map Resolve [p ..< p + N - 1] @ [Resolve (p + N - 1)] = map Resolve [p ..< p + Suc N - 1]"
    by simp
  have inv: "(invocations s @ [writer_call c w p N Waiting]) ! (b + j) = writer_call c w p j Waiting"
    if "j < Suc N" for j
    using that iv [of j] li by (cases "j = N") (simp_all add: nth_append)
  have prom: "\<not> (promises s @ [False]) ! (p + i)" if "i < N" for i
  proof (cases "i = N - 1")
    case True
    then show ?thesis using lp N by (simp add: nth_append)
  next
    case False
    then have i: "i < N - 1" using that by simp
    then have "p + i < length (promises s)" using lp by arith
    then show ?thesis using pr [OF i] by (simp add: nth_append)
  qed
  show ?thesis
    unfolding e arrived_def serving_def
    using cx lt ty li lp N q w st rd c inv prom up
    by (simp del: upt_Suc)
qed

lemma arrivals:
  assumes "idle c s"
  shows "arrived c (length (items s)) (length (promises s)) (length (invocations s)) (Suc k)
           (fold exec (replicate (Suc k) Write) s)"
proof (induction k)
  case 0
  then show ?case using first_arrival [OF assms] by simp
next
  case (Suc k)
  have "fold exec (replicate (Suc (Suc k)) Write) s
      = exec Write (fold exec (replicate (Suc k) Write) s)"
    unfolding replicate_Suc [of "Suc k"] replicate_append_same [symmetric] fold_append
    by simp
  then show ?case using next_arrival [OF Suc] by simp
qed

lemma serial_turn: "serial b N = map (turn b) [0 ..< 2 * N]"
  by (simp add: serial_def turn_def)

lemma serving_bound: "serving c w p b N n s \<Longrightarrow> n \<le> 2 * N"
  by (simp add: serving_def)

lemma serving_turn:
  assumes sv: "serving c w p b N n s" and n: "n < 2 * N"
  shows "enabled (turn b n) s" and "serving c w p b N (Suc n) (exec (turn b n) s)"
proof -
  have j: "n div 2 < N" using n by simp
  show "enabled (turn b n) s"
  proof (cases "even n")
    case True
    then show ?thesis
      using serving_can_begin [OF sv j] by (auto simp: turn_def)
  next
    case False
    then have "n = 2 * (n div 2) + 1" by presburger
    then show ?thesis
      using serving_can_finish [OF sv j] False by (simp add: turn_def)
  qed
  show "serving c w p b N (Suc n) (exec (turn b n) s)"
  proof (cases "even n")
    case True
    then have e: "n = 2 * (n div 2)" by presburger
    have "serving c w p b N (2 * (n div 2)) s" using sv e by simp
    from serving_begin [OF this j] show ?thesis using True e by (simp add: turn_def)
  next
    case False
    then have e: "n = 2 * (n div 2) + 1" by presburger
    have "serving c w p b N (2 * (n div 2) + 1) s" using sv e by simp
    from serving_finish [OF this j] have "serving c w p b N (Suc n) (finish_body (b + n div 2) s)"
      using e by (metis Suc_eq_plus1 add_Suc_right one_add_one)
    then show ?thesis using False by (simp add: turn_def)
  qed
qed

lemma serving_only_turn:
  assumes sv: "serving c w p b N n s" and j: "j < N"
    and e: "e = Begin (b + j) \<or> e = Finish (b + j)" and en: "enabled e s"
  shows "e = turn b n \<and> n < 2 * N"
  using e
proof
  assume "e = Begin (b + j)"
  then show ?thesis using en serving_can_begin [OF sv j] j by (simp add: turn_def)
next
  assume "e = Finish (b + j)"
  then show ?thesis using en serving_can_finish [OF sv j] j by (simp add: turn_def)
qed

lemma serving_run:
  assumes "serving c w p b N n s" and "run_ok es s"
    and "\<forall>e \<in> set es. \<exists>j < N. e = Begin (b + j) \<or> e = Finish (b + j)"
  shows "es = map (turn b) [n ..< n + length es] \<and> n + length es \<le> 2 * N"
  using assms
proof (induction es arbitrary: n s)
  case Nil
  then show ?case by (simp add: serving_bound)
next
  case (Cons e es)
  obtain j where j: "j < N" and e: "e = Begin (b + j) \<or> e = Finish (b + j)"
    using Cons.prems(3) by auto
  have en: "enabled e s" and r: "run_ok es (exec e s)" using Cons.prems(2) by simp_all
  have t: "e = turn b n" and n: "n < 2 * N"
    using serving_only_turn [OF Cons.prems(1) j e en] by simp_all
  have sv: "serving c w p b N (Suc n) (exec e s)"
    using serving_turn(2) [OF Cons.prems(1) n] t by simp
  have ih: "es = map (turn b) [Suc n ..< Suc n + length es] \<and> Suc n + length es \<le> 2 * N"
    using Cons.IH [OF sv r] Cons.prems(3) by simp
  have u: "[n ..< n + length (e # es)] = n # [Suc n ..< Suc n + length es]"
    by (simp add: upt_conv_Cons del: upt_Suc)
  show ?case unfolding u using ih t by (simp del: upt_Suc)
qed

lemma serving_live:
  assumes "serving c w p b N n s"
  shows "run_ok (map (turn b) [n ..< 2 * N]) s"
  using assms
proof (induction "2 * N - n" arbitrary: n s)
  case 0
  then show ?case by simp
next
  case (Suc k)
  then have n: "n < 2 * N" by simp
  have "run_ok (map (turn b) [Suc n ..< 2 * N]) (exec (turn b n) s)"
    using Suc.hyps(1) [OF _ serving_turn(2) [OF Suc.prems n]] Suc.hyps(2) by simp
  then show ?case using serving_turn(1) [OF Suc.prems n] n by (simp add: upt_conv_Cons)
qed

lemma writers_serial:
  assumes "idle c s"
  shows "run_ok (serial (length (invocations s)) N) (fold exec (replicate N Write) s)"
    and "run_ok es (fold exec (replicate N Write) s) \<Longrightarrow>
         \<forall>e \<in> set es. \<exists>j < N. e = Begin (length (invocations s) + j) \<or>
            e = Finish (length (invocations s) + j) \<Longrightarrow>
         prefix es (serial (length (invocations s)) N)"
proof -
  let ?b = "length (invocations s)"
  show "run_ok (serial ?b N) (fold exec (replicate N Write) s)"
  proof (cases N)
    case 0
    then show ?thesis by (simp add: serial_def)
  next
    case (Suc k)
    have "serving c (length (items s)) (length (promises s)) ?b N 0 (fold exec (replicate N Write) s)"
      using arrivals [OF assms, of k] Suc by (simp add: arrived_def)
    from serving_live [OF this] show ?thesis by (simp add: serial_turn)
  qed
  assume r: "run_ok es (fold exec (replicate N Write) s)"
    and a: "\<forall>e \<in> set es. \<exists>j < N. e = Begin (?b + j) \<or> e = Finish (?b + j)"
  show "prefix es (serial ?b N)"
  proof (cases N)
    case 0
    then have "es = []" using a by (cases es) auto
    then show ?thesis by simp
  next
    case (Suc k)
    have "serving c (length (items s)) (length (promises s)) ?b N 0 (fold exec (replicate N Write) s)"
      using arrivals [OF assms, of k] Suc by (simp add: arrived_def)
    from serving_run [OF this r a]
    have es: "es = map (turn ?b) [0 ..< length es]" and l: "length es \<le> 2 * N" by simp_all
    have "map (turn ?b) [0 ..< length es] = take (length es) (serial ?b N)"
      using l by (simp add: serial_turn take_map min_def)
    then have "es = take (length es) (serial ?b N)" using es by simp
    then show ?thesis by (metis take_is_prefix)
  qed
qed

lemma item_after_start [simp]:
  "steps (start it) = steps it" "ready (start it)"
  by (cases it; simp)+

lemma kcall_LockNext_empty:
  "w < length (items s) \<Longrightarrow> steps (items s ! w) = [] \<Longrightarrow>
   kcall (LockNext w q key) s = shift_queue q key s"
  by simp

lemma kcall_LockNext_Resolve:
  "w < length (items s) \<Longrightarrow> steps (items s ! w) = StepResolve r # rest \<Longrightarrow>
   kcall (LockNext w q key) s =
     s\<lparr>items := (items s)[w := steps_shift (items s ! w)], promises := (promises s)[r := True]\<rparr>"
  by simp

lemma kcall_LockNext_LockNext:
  "w < length (items s) \<Longrightarrow> steps (items s ! w) = LockNext w q key # rest \<Longrightarrow>
   kcall (LockNext w q key) s =
     kcall (LockNext w q key) (s\<lparr>items := (items s)[w := steps_shift (items s ! w)]\<rparr>)"
  by simp

lemma kserving_can_run_then:
  assumes "kserving k g w q th p b N n s"
  shows "can_run_then th s = (n = 0)"
  using assms by (auto simp: kserving_def can_run_then_def)

lemma kserving_all_ready:
  assumes sv: "kserving k g w q th p b N n s" and j: "j < N"
  shows "all_ready (b + j) s = (3 * j < n)"
proof -
  have a: "acquisitions s ! (b + j) = lock_call w q k p j
      (if 3 * j + 1 < n then Locked else Pending) (3 * j + 2 < n) (3 * j + 3 < n)"
    and r: "ready (items s ! w) = (0 < n)"
    and pr: "\<And>i. i < N - 1 \<Longrightarrow> promises s ! (p + i) = (i < (n - 1) div 3)"
    using sv j by (simp_all add: kserving_def)
  show ?thesis
  proof (cases j)
    case 0
    then show ?thesis using a r by (simp add: all_ready_def lock_call_def)
  next
    case (Suc i)
    then have i: "i < N - 1" using j by simp
    have "(0 < n \<and> i < (n - 1) div 3) = (3 * j < n)" using Suc by presburger
    then show ?thesis using a r pr [OF i] Suc by (simp add: all_ready_def lock_call_def)
  qed
qed

lemma kserving_can_grant:
  assumes sv: "kserving k g w q th p b N n s" and j: "j < N"
  shows "can_grant (b + j) s = (n = 3 * j + 1)"
proof -
  have a: "acquisitions s ! (b + j) = lock_call w q k p j
      (if 3 * j + 1 < n then Locked else Pending) (3 * j + 2 < n) (3 * j + 3 < n)"
    and l: "b + N \<le> length (acquisitions s)"
    using sv j by (simp_all add: kserving_def)
  show ?thesis
    using a l j kserving_all_ready [OF sv j]
    by (auto simp: can_grant_def lock_call_def)
qed

lemma kserving_can_release:
  assumes sv: "kserving k g w q th p b N n s" and j: "j < N"
  shows "kenabled (Release (b + j)) s = (3 * j + 1 < n)"
proof -
  have a: "acquisitions s ! (b + j) = lock_call w q k p j
      (if 3 * j + 1 < n then Locked else Pending) (3 * j + 2 < n) (3 * j + 3 < n)"
    and l: "b + N \<le> length (acquisitions s)"
    using sv j by (simp_all add: kserving_def)
  show ?thesis using a l j by (simp add: lock_call_def)
qed

lemma kserving_can_finalize:
  assumes sv: "kserving k g w q th p b N n s" and j: "j < N"
  shows "can_finalize (b + j) s = (n = 3 * j + 3)"
proof -
  have a: "acquisitions s ! (b + j) = lock_call w q k p j
      (if 3 * j + 1 < n then Locked else Pending) (3 * j + 2 < n) (3 * j + 3 < n)"
    and l: "b + N \<le> length (acquisitions s)"
    using sv j by (simp_all add: kserving_def)
  show ?thesis
    using a l j kserving_all_ready [OF sv j]
    by (auto simp: can_finalize_def lock_call_def)
qed

lemma thirds:
  "Suc (3 * j) div 3 = j" "Suc (Suc (3 * j)) div 3 = j" "Suc (Suc (Suc (3 * j))) div 3 = Suc j"
  "(3 * j + 1 - 1) div 3 = j" "(3 * j + 2 - 1) div 3 = j" "(3 * j + 3 - 1) div 3 = j"
  "(3 * j + 4 - 1) div 3 = Suc j"
  "(3 * j < 1) = (j = 0)" "(3 * j < 2) = (j = 0)" "(3 * j < 3) = (j = 0)"
  "(3 * j + 1 < 4) = (j = 0)" "(3 * j + 2 < 4) = (j = 0)" "(3 * j + 3 < 4) = (j = 0)"
  for j :: nat
  by presburger+

lemma kserving_run_then:
  assumes sv: "kserving k g w q th p b N 0 s"
  shows "kserving k g w q th p b N 1 (run_then th s)"
proof -
  have th: "thens s ! th = (g, EntriesNext q k, False)"
    and qs: "queues s ! q = [g, w]" and q: "q < length (queues s)"
    using sv by (simp_all add: kserving_def)
  have e: "run_then th s =
      s\<lparr>queues := (queues s)[q := [w]], items := (items s)[w := start (items s ! w)],
        thens := (thens s)[th := (g, EntriesNext q k, True)]\<rparr>"
    using th qs by (simp add: run_then_def shift_queue_def Let_def)
  show ?thesis
    unfolding e using sv by (simp add: kserving_def)
qed

lemma kserving_grant:
  assumes sv: "kserving k g w q th p b N (3 * j + 1) s" and j: "j < N"
  shows "kserving k g w q th p b N (3 * j + 2) (grant (b + j) s)"
proof -
  have a: "\<And>j'. j' < N \<Longrightarrow> acquisitions s ! (b + j') = lock_call w q k p j'
      (if 3 * j' + 1 < 3 * j + 1 then Locked else Pending) (3 * j' + 2 < 3 * j + 1)
      (3 * j' + 3 < 3 * j + 1)"
    and l: "b + N \<le> length (acquisitions s)"
    using sv by (simp_all add: kserving_def)
  have acq: "(acquisitions s)[b + j := (acquisitions s ! (b + j))\<lparr>result := Locked\<rparr>] ! (b + j')
      = lock_call w q k p j' (if 3 * j' + 1 < 3 * j + 2 then Locked else Pending)
          (3 * j' + 2 < 3 * j + 2) (3 * j' + 3 < 3 * j + 2)"
    if "j' < N" for j'
  proof (cases "j' = j")
    case True
    then show ?thesis using a [OF j] l j by (simp add: lock_call_def)
  next
    case False
    then have "(3 * j' + 1 < 3 * j + 2) = (3 * j' + 1 < 3 * j + 1)"
      "(3 * j' + 2 < 3 * j + 2) = (3 * j' + 2 < 3 * j + 1)"
      "(3 * j' + 3 < 3 * j + 2) = (3 * j' + 3 < 3 * j + 1)"
      by presburger+
    then show ?thesis using a [OF that] False by simp
  qed
  have d: "(3 * j + 2 - 1) div 3 = (3 * j + 1 - 1) div 3" "(3 * j + 2 < 4) = (3 * j + 1 < 4)"
    by presburger+
  show ?thesis
    unfolding kserving_def grant_def
    using sv j acq by (simp add: kserving_def thirds del: One_nat_def)
qed

lemma kexec_Release: "kexec (Release a) s = kresolve_unlock a s"
  by (simp add: unlock_def lock_handle_def new_AsyncmuxLock_def)

lemma kserving_release:
  assumes sv: "kserving k g w q th p b N (3 * j + 2) s" and j: "j < N"
  shows "kserving k g w q th p b N (3 * j + 3) (kresolve_unlock (b + j) s)"
proof -
  have a: "\<And>j'. j' < N \<Longrightarrow> acquisitions s ! (b + j') = lock_call w q k p j'
      (if 3 * j' + 1 < 3 * j + 2 then Locked else Pending) (3 * j' + 2 < 3 * j + 2)
      (3 * j' + 3 < 3 * j + 2)"
    and l: "b + N \<le> length (acquisitions s)"
    using sv by (simp_all add: kserving_def)
  have acq: "(acquisitions s)[b + j := (acquisitions s ! (b + j))\<lparr>unlockPromise := True\<rparr>] ! (b + j')
      = lock_call w q k p j' (if 3 * j' + 1 < 3 * j + 3 then Locked else Pending)
          (3 * j' + 2 < 3 * j + 3) (3 * j' + 3 < 3 * j + 3)"
    if "j' < N" for j'
  proof (cases "j' = j")
    case True
    then show ?thesis using a [OF j] l j by (simp add: lock_call_def)
  next
    case False
    then have "(3 * j' + 1 < 3 * j + 3) = (3 * j' + 1 < 3 * j + 2)"
      "(3 * j' + 2 < 3 * j + 3) = (3 * j' + 2 < 3 * j + 2)"
      "(3 * j' + 3 < 3 * j + 3) = (3 * j' + 3 < 3 * j + 2)"
      by presburger+
    then show ?thesis using a [OF that] False by simp
  qed
  have d: "(3 * j + 3 - 1) div 3 = (3 * j + 2 - 1) div 3" "(3 * j + 3 < 4) = (3 * j + 2 < 4)"
    by presburger+
  show ?thesis
    unfolding kserving_def kresolve_unlock_def
    using sv j acq by (simp add: kserving_def thirds del: One_nat_def)
qed

lemma kserving_finalize:
  assumes sv: "kserving k g w q th p b N (3 * j + 3) s" and j: "j < N"
  shows "kserving k g w q th p b N (3 * j + 4) (finalize (b + j) s)"
proof -
  have a: "\<And>j'. j' < N \<Longrightarrow> acquisitions s ! (b + j') = lock_call w q k p j'
      (if 3 * j' + 1 < 3 * j + 3 then Locked else Pending) (3 * j' + 2 < 3 * j + 3)
      (3 * j' + 3 < 3 * j + 3)"
    and l: "b + N \<le> length (acquisitions s)"
    and th: "th < length (thens s)" "thens s ! th = (g, EntriesNext q k, True)"
    and g: "g < length (items s)"
    and w: "w < length (items s)" and rd: "ready (items s ! w)"
    and pl: "p + N - 1 \<le> length (promises s)"
    and q: "q < length (queues s)" and qs: "queues s ! q = [w]"
    using sv j by (simp_all add: kserving_def)
  have d3: "(3 * j + 3 - 1) div 3 = j" "(3 * j + 3 < 4) = (j = 0)" by presburger+
  have pr: "\<And>i. i < N - 1 \<Longrightarrow> promises s ! (p + i) = (i < j)"
    using sv by (simp add: kserving_def thirds del: One_nat_def)
  have st: "steps (items s ! w) =
      (if j = 0 then LockNext w q (Some k) # map StepResolve [p ..< p + N - 1]
       else map StepResolve [p + j ..< p + N - 1])"
    using sv by (simp add: kserving_def thirds del: One_nat_def)
  have aj: "acquisitions s ! (b + j) = lock_call w q k p j Locked True False"
    using a [OF j] by simp
  let ?f = "LockNext w q (Some k)"
  have fb: "finalize (b + j) s =
      (kcall ?f s)\<lparr>acquisitions :=
         (acquisitions (kcall ?f s))[b + j :=
            (acquisitions (kcall ?f s) ! (b + j))\<lparr>finalized := True\<rparr>]\<rparr>"
    by (simp add: finalize_def Let_def aj lock_call_def del: kcall.simps)
  let ?it = "if j = 0 then steps_shift (items s ! w) else items s ! w"
  let ?s1 = "s\<lparr>items := (items s)[w := ?it]\<rparr>"
  have c1: "kcall ?f s = kcall ?f ?s1"
  proof (cases "j = 0")
    case True
    then show ?thesis using kcall_LockNext_LockNext [of w s q "Some k"] w st by simp
  next
    case False
    then show ?thesis by simp
  qed
  have st1: "steps (items ?s1 ! w) = map StepResolve [p + j ..< p + N - 1]"
    using w st by (cases "j = 0") simp_all
  have rd1: "ready (items ?s1 ! w)" using w rd by simp
  have w1: "w < length (items ?s1)" using w by simp
  have d4: "(3 * j + 4 - 1) div 3 = j + 1" "\<not> 3 * j + 4 < 4" by presburger+
  have acq: "(acquisitions s)[b + j := (acquisitions s ! (b + j))\<lparr>finalized := True\<rparr>] ! (b + j')
      = lock_call w q k p j' (if 3 * j' + 1 < 3 * j + 4 then Locked else Pending)
          (3 * j' + 2 < 3 * j + 4) (3 * j' + 3 < 3 * j + 4)"
    if "j' < N" for j'
  proof (cases "j' = j")
    case True
    then show ?thesis using aj l j by (simp add: lock_call_def)
  next
    case False
    then have "(3 * j' + 1 < 3 * j + 4) = (3 * j' + 1 < 3 * j + 3)"
      "(3 * j' + 2 < 3 * j + 4) = (3 * j' + 2 < 3 * j + 3)"
      "(3 * j' + 3 < 3 * j + 4) = (3 * j' + 3 < 3 * j + 3)"
      by presburger+
    then show ?thesis using a [OF that] False by simp
  qed
  show ?thesis
  proof (cases "j + 1 = N")
    case True
    then have e: "steps (items ?s1 ! w) = []" using st1 by simp
    have "kcall ?f ?s1 = shift_queue q (Some k) ?s1"
      using kcall_LockNext_empty [OF w1 e] .
    also have "\<dots> = ?s1\<lparr>queues := (queues s)[q := []],
        partialQueue := filter (\<lambda>(k', q'). k' \<noteq> k) (partialQueue s)\<rparr>"
      using qs by (simp add: shift_queue_def Let_def)
    finally have call: "kcall ?f s = ?s1\<lparr>queues := (queues s)[q := []],
        partialQueue := filter (\<lambda>(k', q'). k' \<noteq> k) (partialQueue s)\<rparr>"
      using c1 by simp
    have n: "3 * j + 4 = 3 * N + 1" using True by simp
    have prom: "promises s ! (p + i) = (i < j + 1)" if "i < N - 1" for i
      using pr [OF that] that True by auto
    show ?thesis
      unfolding fb call kserving_def d4
      using True w rd1 e j l pl th g q acq prom
      by (simp del: One_nat_def)
  next
    case False
    then have lt: "p + j < p + N - 1" using j by simp
    then have e: "steps (items ?s1 ! w) = StepResolve (p + j) # map StepResolve [p + (j + 1) ..< p + N - 1]"
      using st1 by (simp add: upt_conv_Cons)
    have call: "kcall ?f s =
        ?s1\<lparr>items := (items ?s1)[w := steps_shift (items ?s1 ! w)],
            promises := (promises ?s1)[p + j := True]\<rparr>"
      using kcall_LockNext_Resolve [OF w1 e] c1 by simp
    have prom: "(promises s)[p + j := True] ! (p + i) = (i < j + 1)" if "i < N - 1" for i
    proof (cases "i = j")
      case True
      then show ?thesis using pl that by simp
    next
      case False
      then show ?thesis using pr [OF that] by (auto simp: nth_list_update)
    qed
    show ?thesis
      unfolding fb call kserving_def d4
      using w rd1 e j l pl th g q qs acq prom False
      by (simp del: One_nat_def)
  qed
qed

lemma kfirst_arrival:
  assumes "kidle k s"
  shows "\<exists>g w. karrived k g w (length (queues s)) (length (thens s)) (length (promises s))
           (length (acquisitions s)) 1 (kexec (Lock (Some k) NoSignal) s)"
proof (cases "latest (queues s ! 0)")
  case None
  have "karrived k (length (items s)) (Suc (length (items s))) (length (queues s))
      (length (thens s)) (length (promises s)) (length (acquisitions s)) 1
      (kexec (Lock (Some k) NoSignal) s)"
    using assms None
    by (simp add: kidle_def karrived_def kserving_def lock_def acquire_def getQueueEntries_def
        lock_entry_def queue_push_def latest_def lock_call_def nth_append Let_def map_add_def)
  then show ?thesis by blast
next
  case (Some l)
  have "karrived k l (length (items s)) (length (queues s))
      (length (thens s)) (length (promises s)) (length (acquisitions s)) 1
      (kexec (Lock (Some k) NoSignal) s)"
    using assms Some
    by (simp add: kidle_def karrived_def kserving_def lock_def acquire_def getQueueEntries_def
        lock_entry_def queue_push_def latest_def lock_call_def nth_append Let_def map_add_def)
  then show ?thesis by blast
qed

lemma knext_arrival:
  assumes a: "karrived k g w q th p b N s"
  shows "karrived k g w q th p b (Suc N) (kexec (Lock (Some k) NoSignal) s)"
proof -
  have sv: "kserving k g w q th p b N 0 s" and pq: "map_of (partialQueue s) k = Some q"
    and ty: "type (items s ! w) = W" and la: "length (acquisitions s) = b + N"
    and lp: "length (promises s) = p + N - 1" and N: "0 < N"
    using a by (simp_all add: karrived_def)
  have qs: "queues s ! q = [g, w]" and w: "w < length (items s)"
    and st: "steps (items s ! w) = LockNext w q (Some k) # map StepResolve [p ..< p + N - 1]"
    and iv: "\<And>j. j < N \<Longrightarrow> acquisitions s ! (b + j) = lock_call w q k p j Pending False False"
    and pr: "\<And>i. i < N - 1 \<Longrightarrow> \<not> promises s ! (p + i)"
    using sv N by (simp_all add: kserving_def)
  let ?t = "s\<lparr>items := (items s)[w := steps_push (StepResolve (p + N - 1)) (items s ! w)],
      promises := promises s @ [False],
      acquisitions := acquisitions s @ [lock_call w q k p N Pending False False]\<rparr>"
  have e: "kexec (Lock (Some k) NoSignal) s = ?t"
    using pq qs ty st N lp
    by (simp add: lock_def acquire_def getQueueEntries_def lock_entry_def latest_def
        lock_call_def Let_def)
  have "[p ..< p + N - 1] @ [p + N - 1] = [p ..< p + Suc N - 1]"
    using N by (cases N) simp_all
  from arg_cong [OF this, of "map StepResolve"]
  have up: "map StepResolve [p ..< p + N - 1] @ [StepResolve (p + N - 1)]
      = map StepResolve [p ..< p + Suc N - 1]"
    by simp
  have inv: "(acquisitions s @ [lock_call w q k p N Pending False False]) ! (b + j)
      = lock_call w q k p j Pending False False"
    if "j < Suc N" for j
    using that iv [of j] la by (cases "j = N") (simp_all add: nth_append)
  have prom: "\<not> (promises s @ [False]) ! (p + i)" if "i < N" for i
  proof (cases "i = N - 1")
    case True
    then show ?thesis using lp N by (simp add: nth_append)
  next
    case False
    then have i: "i < N - 1" using that by simp
    then have "p + i < length (promises s)" using lp by arith
    then show ?thesis using pr [OF i] by (simp add: nth_append)
  qed
  show ?thesis
    unfolding e karrived_def kserving_def
    using sv pq ty la lp N qs w st inv prom up
    by (auto simp: kserving_def nth_list_update simp del: upt_Suc)
qed

lemma karrivals:
  assumes "kidle k s"
  shows "\<exists>g w. karrived k g w (length (queues s)) (length (thens s)) (length (promises s))
           (length (acquisitions s)) (Suc n)
           (fold kexec (replicate (Suc n) (Lock (Some k) NoSignal)) s)"
proof (induction n)
  case 0
  then show ?case using kfirst_arrival [OF assms] by simp
next
  case (Suc n)
  have "fold kexec (replicate (Suc (Suc n)) (Lock (Some k) NoSignal)) s
      = kexec (Lock (Some k) NoSignal) (fold kexec (replicate (Suc n) (Lock (Some k) NoSignal)) s)"
    unfolding replicate_Suc [of "Suc n"] replicate_append_same [symmetric] fold_append
    by simp
  then show ?case using knext_arrival Suc by metis
qed

lemma kturn_RunThen: "kturn th b 0 = RunThen th"
  by (simp add: kturn_def)

lemma kturn_Grant: "kturn th b (3 * j + 1) = Grant (b + j)"
  by (simp add: kturn_def)

lemma kturn_Release: "kturn th b (3 * j + 2) = Release (b + j)"
proof -
  have "3 * j + 2 - 1 = 1 + j * 3" by simp
  then have m: "(3 * j + 2 - 1) mod 3 = 1" by (simp only: mod_mult_self1) simp
  have d: "(3 * j + 2 - 1) div 3 = j" by presburger
  have c: "3 * j + 2 \<noteq> 0" by simp
  show ?thesis by (simp only: kturn_def m d c if_False) simp
qed

lemma kturn_Finalize: "kturn th b (3 * j + 3) = Finalize (b + j)"
proof -
  have "3 * j + 3 - 1 = 2 + j * 3" by simp
  then have m: "(3 * j + 3 - 1) mod 3 = 2" by (simp only: mod_mult_self1) simp
  have d: "(3 * j + 3 - 1) div 3 = j" by presburger
  have c: "3 * j + 3 \<noteq> 0" by simp
  show ?thesis by (simp only: kturn_def m d c if_False) simp
qed

lemmas kturn_simps = kturn_RunThen kturn_Grant kturn_Release kturn_Finalize

lemma kserving_bound: "kserving k g w q th p b N n s \<Longrightarrow> n \<le> 3 * N + 1"
  by (simp add: kserving_def)

lemma kserving_turn:
  assumes sv: "kserving k g w q th p b N n s" and n: "n < 3 * N + 1"
  shows "kenabled (kturn th b n) s \<and> kserving k g w q th p b N (Suc n) (kexec (kturn th b n) s)"
proof -
  have "n = 0 \<or> n = 3 * ((n - 1) div 3) + 1 \<or> n = 3 * ((n - 1) div 3) + 2
      \<or> n = 3 * ((n - 1) div 3) + 3"
    by arith
  then consider "n = 0" | j where "n = 3 * j + 1" | j where "n = 3 * j + 2" | j where "n = 3 * j + 3"
    by blast
  then show ?thesis
  proof cases
    case 1
    have e: "kturn th b n = RunThen th" using 1 kturn_simps(1) by simp
    have s': "Suc n = 1" using 1 by simp
    have sv0: "kserving k g w q th p b N 0 s" using sv 1 by simp
    have A: "kenabled (RunThen th) s" using kserving_can_run_then [OF sv] 1 by simp
    have B: "kserving k g w q th p b N 1 (kexec (RunThen th) s)"
      using kserving_run_then [OF sv0] by simp
    show ?thesis unfolding e s' using A B by blast
  next
    case (2 j)
    then have j: "j < N" using n by simp
    have e: "kturn th b n = Grant (b + j)" using 2 kturn_simps(2) by simp
    have s': "Suc n = 3 * j + 2" using 2 by simp
    have svj: "kserving k g w q th p b N (3 * j + 1) s" using sv 2 by simp
    have A: "kenabled (Grant (b + j)) s" using kserving_can_grant [OF sv j] 2 by simp
    have B: "kserving k g w q th p b N (3 * j + 2) (kexec (Grant (b + j)) s)"
      using kserving_grant [OF svj j] by simp
    show ?thesis unfolding e s' using A B by blast
  next
    case (3 j)
    then have j: "j < N" using n by simp
    have e: "kturn th b n = Release (b + j)" using 3 kturn_simps(3) by simp
    have s': "Suc n = 3 * j + 3" using 3 by simp
    have svj: "kserving k g w q th p b N (3 * j + 2) s" using sv 3 by simp
    have A: "kenabled (Release (b + j)) s" using kserving_can_release [OF sv j] 3 by simp
    have B: "kserving k g w q th p b N (3 * j + 3) (kexec (Release (b + j)) s)"
      unfolding kexec_Release using kserving_release [OF svj j] .
    show ?thesis unfolding e s' using A B by blast
  next
    case (4 j)
    then have j: "j < N" using n by simp
    have e: "kturn th b n = Finalize (b + j)" using 4 kturn_simps(4) by simp
    have s': "Suc n = 3 * j + 4" using 4 by simp
    have svj: "kserving k g w q th p b N (3 * j + 3) s" using sv 4 by simp
    have A: "kenabled (Finalize (b + j)) s" using kserving_can_finalize [OF sv j] 4 by simp
    have B: "kserving k g w q th p b N (3 * j + 4) (kexec (Finalize (b + j)) s)"
      using kserving_finalize [OF svj j] by simp
    show ?thesis unfolding e s' using A B by blast
  qed
qed

lemma kserving_only_turn:
  assumes sv: "kserving k g w q th p b N n s"
    and e: "e = RunThen th \<or>
      (\<exists>j < N. e = Grant (b + j) \<or> e = Release (b + j) \<or> e = Finalize (b + j))"
    and en: "kenabled e s"
    and fresh: "\<And>j. 3 * j + 2 < n \<Longrightarrow> e \<noteq> Release (b + j)"
  shows "e = kturn th b n \<and> n < 3 * N + 1"
proof -
  consider "e = RunThen th" | j where "j < N" "e = Grant (b + j)"
    | j where "j < N" "e = Release (b + j)" | j where "j < N" "e = Finalize (b + j)"
    using e by blast
  then show ?thesis
  proof cases
    case 1
    then show ?thesis using en kserving_can_run_then [OF sv] kturn_simps(1) [of th b] by simp
  next
    case 2
    then show ?thesis using en kserving_can_grant [OF sv 2(1)] kturn_simps(2) [of th b j] by simp
  next
    case 3
    then have "3 * j + 1 < n" using en kserving_can_release [OF sv 3(1)] by simp
    moreover have "\<not> 3 * j + 2 < n" using fresh [of j] 3 by blast
    ultimately have "n = 3 * j + 2" by simp
    then show ?thesis using 3 kturn_simps(3) [of th b j] by simp
  next
    case 4
    then show ?thesis using en kserving_can_finalize [OF sv 4(1)] kturn_simps(4) [of th b j] by simp
  qed
qed

lemma kserving_run:
  assumes "kserving k g w q th p b N n s" and "krun_ok es s" and "distinct es"
    and "\<forall>e \<in> set es. e = RunThen th \<or>
      (\<exists>j < N. e = Grant (b + j) \<or> e = Release (b + j) \<or> e = Finalize (b + j))"
    and "\<forall>j. 3 * j + 2 < n \<longrightarrow> Release (b + j) \<notin> set es"
  shows "es = map (kturn th b) [n ..< n + length es] \<and> n + length es \<le> 3 * N + 1"
  using assms
proof (induction es arbitrary: n s)
  case Nil
  then show ?case using kserving_bound [OF Nil.prems(1)] by simp
next
  case (Cons e es)
  have en: "kenabled e s" and r: "krun_ok es (kexec e s)" using Cons.prems(2) by simp_all
  have al: "e = RunThen th \<or>
      (\<exists>j < N. e = Grant (b + j) \<or> e = Release (b + j) \<or> e = Finalize (b + j))"
    using Cons.prems(4) by simp
  have fr: "\<And>j. 3 * j + 2 < n \<Longrightarrow> e \<noteq> Release (b + j)"
    using Cons.prems(5) by auto
  have t: "e = kturn th b n" and n: "n < 3 * N + 1"
    using kserving_only_turn [OF Cons.prems(1) al en fr] by simp_all
  have sv: "kserving k g w q th p b N (Suc n) (kexec e s)"
    using kserving_turn [OF Cons.prems(1) n] t by simp
  have fresh: "\<forall>j. 3 * j + 2 < Suc n \<longrightarrow> Release (b + j) \<notin> set es"
  proof (intro allI impI)
    fix j assume j: "3 * j + 2 < Suc n"
    show "Release (b + j) \<notin> set es"
    proof (cases "3 * j + 2 = n")
      case True
      then have "e = Release (b + j)" using t kturn_simps(3) [of th b j] by simp
      then show ?thesis using Cons.prems(3) by simp
    next
      case False
      then have "3 * j + 2 < n" using j by simp
      then show ?thesis using Cons.prems(5) by simp
    qed
  qed
  have d: "distinct es" using Cons.prems(3) by simp
  have ih: "es = map (kturn th b) [Suc n ..< Suc n + length es] \<and> Suc n + length es \<le> 3 * N + 1"
    using Cons.IH [OF sv r d _ fresh] Cons.prems(4) by simp
  have u: "[n ..< n + length (e # es)] = n # [Suc n ..< Suc n + length es]"
    by (simp add: upt_conv_Cons del: upt_Suc)
  show ?case unfolding u using ih t by (simp del: upt_Suc)
qed

lemma kserving_live:
  assumes "kserving k g w q th p b N n s"
  shows "krun_ok (map (kturn th b) [n ..< 3 * N + 1]) s"
  using assms
proof (induction "3 * N + 1 - n" arbitrary: n s)
  case 0
  then show ?case by simp
next
  case (Suc m)
  then have n: "n < 3 * N + 1" by simp
  have "krun_ok (map (kturn th b) [Suc n ..< 3 * N + 1]) (kexec (kturn th b n) s)"
    using Suc.hyps(1) [of "Suc n"] kserving_turn [OF Suc.prems n] Suc.hyps(2) by simp
  then show ?case using kserving_turn [OF Suc.prems n] n by (simp add: upt_conv_Cons del: upt_Suc)
qed

lemma locks_serial:
  assumes "kidle k s"
  shows "krun_ok (kserial (length (thens s)) (length (acquisitions s)) N)
           (fold kexec (replicate N (Lock (Some k) NoSignal)) s)"
    and "krun_ok es (fold kexec (replicate N (Lock (Some k) NoSignal)) s) \<Longrightarrow>
         distinct es \<Longrightarrow>
         \<forall>e \<in> set es. e = RunThen (length (thens s)) \<or>
           (\<exists>j < N. e = Grant (length (acquisitions s) + j) \<or>
              e = Release (length (acquisitions s) + j) \<or>
              e = Finalize (length (acquisitions s) + j)) \<Longrightarrow>
         prefix es (kserial (length (thens s)) (length (acquisitions s)) N)"
proof -
  let ?b = "length (acquisitions s)" and ?th = "length (thens s)"
  let ?t = "fold kexec (replicate N (Lock (Some k) NoSignal)) s"
  show "krun_ok (kserial ?th ?b N) ?t"
  proof (cases N)
    case 0
    then show ?thesis by (simp add: kserial_def)
  next
    case (Suc m)
    obtain g w where "kserving k g w (length (queues s)) ?th (length (promises s)) ?b N 0 ?t"
      using karrivals [OF assms, of m] Suc by (auto simp: karrived_def)
    from kserving_live [OF this] show ?thesis using Suc by (simp add: kserial_def)
  qed
  assume r: "krun_ok es ?t" and d: "distinct es"
    and a: "\<forall>e \<in> set es. e = RunThen ?th \<or>
      (\<exists>j < N. e = Grant (?b + j) \<or> e = Release (?b + j) \<or> e = Finalize (?b + j))"
  show "prefix es (kserial ?th ?b N)"
  proof (cases N)
    case 0
    have "es = []"
    proof (cases es)
      case Nil
      then show ?thesis .
    next
      case (Cons e es')
      then have "e = RunThen ?th" using a 0 by simp
      then have "can_run_then ?th s" using r Cons 0 by simp
      then show ?thesis by (simp add: can_run_then_def)
    qed
    then show ?thesis by simp
  next
    case (Suc m)
    obtain g w where "kserving k g w (length (queues s)) ?th (length (promises s)) ?b N 0 ?t"
      using karrivals [OF assms, of m] Suc by (auto simp: karrived_def)
    from kserving_run [OF this r d a]
    have es: "es = map (kturn ?th ?b) [0 ..< length es]" and l: "length es \<le> 3 * N + 1"
      by simp_all
    have "map (kturn ?th ?b) [0 ..< length es] = take (length es) (kserial ?th ?b N)"
      using l Suc by (simp add: kserial_def take_map min_def del: upt_Suc)
    then have "es = take (length es) (kserial ?th ?b N)" using es by simp
    then show ?thesis by (metis take_is_prefix)
  qed
qed

text \<open>
  \<open>N\<close> writer calls arrive together on an idle owner, or \<open>M\<close> calls of \<open>lock(key)\<close> on an
  idle key. The serial run can happen: every call gets its turn. And every run of the
  callbacks of these calls (for the keyed form: a run in which no event occurs twice,
  since unlocking a handle again changes nothing) is a prefix of the serial run: each body
  begins only after the call that arrived before it has finished and released.
\<close>

lemma exclusive_batch_serial:
  "(idle c s \<longrightarrow>
      run_ok (serial (length (invocations s)) N) (fold exec (replicate N Write) s) \<and>
      (run_ok es (fold exec (replicate N Write) s) \<and>
       (\<forall>e \<in> set es. \<exists>j < N. e = Begin (length (invocations s) + j) \<or>
          e = Finish (length (invocations s) + j)) \<longrightarrow>
         prefix es (serial (length (invocations s)) N))) \<and>
   (kidle k t \<longrightarrow>
      krun_ok (kserial (length (thens t)) (length (acquisitions t)) M)
        (fold kexec (replicate M (Lock (Some k) NoSignal)) t) \<and>
      (krun_ok kes (fold kexec (replicate M (Lock (Some k) NoSignal)) t) \<and> distinct kes \<and>
       (\<forall>e \<in> set kes. e = RunThen (length (thens t)) \<or>
          (\<exists>j < M. e = Grant (length (acquisitions t) + j) \<or>
             e = Release (length (acquisitions t) + j) \<or>
             e = Finalize (length (acquisitions t) + j))) \<longrightarrow>
         prefix kes (kserial (length (thens t)) (length (acquisitions t)) M)))"
  using writers_serial(1) [where c = c and s = s and N = N]
    writers_serial(2) [where c = c and s = s and N = N and es = es]
    locks_serial(1) [where k = k and s = t and N = M]
    locks_serial(2) [where k = k and s = t and N = M and es = kes]
  by blast

lemma exclusive_batch_serial_example:
  "idle 0 (initializeInstance new_owner) \<and>
   run_ok [Begin 0, Finish 0, Begin 1, Finish 1, Begin 2, Finish 2]
     (fold exec [Write, Write, Write] (initializeInstance new_owner)) \<and>
   run_ok [Begin 0, Finish 0, Begin 1] (fold exec [Write, Write, Write] (initializeInstance new_owner)) \<and>
   prefix [Begin 0, Finish 0, Begin 1] [Begin 0, Finish 0, Begin 1, Finish 1, Begin 2, Finish 2] \<and>
   kidle ''k'' new_Asyncmux \<and>
   krun_ok [RunThen 0, Grant 0, Release 0, Finalize 0, Grant 1, Release 1, Finalize 1,
       Grant 2, Release 2, Finalize 2]
     (fold kexec [Lock (Some ''k'') NoSignal, Lock (Some ''k'') NoSignal, Lock (Some ''k'') NoSignal]
        new_Asyncmux) \<and>
   krun_ok [RunThen 0, Grant 0, Release 0, Finalize 0, Grant 1]
     (fold kexec [Lock (Some ''k'') NoSignal, Lock (Some ''k'') NoSignal, Lock (Some ''k'') NoSignal]
        new_Asyncmux) \<and>
   prefix [RunThen 0, Grant 0, Release 0, Finalize 0, Grant 1]
     [RunThen 0, Grant 0, Release 0, Finalize 0, Grant 1, Release 1, Finalize 1,
       Grant 2, Release 2, Finalize 2]"
proof -
  let ?s = "initializeInstance new_owner"
  let ?es = "[Begin 0, Finish 0, Begin 1]"
  let ?kes = "[RunThen 0, Grant 0, Release 0, Finalize 0, Grant 1]"
  have i: "idle 0 ?s" by code_simp
  have l: "length (invocations ?s) = 0" by code_simp
  have r: "replicate 3 Write = [Write, Write, Write]" by code_simp
  have sr: "serial 0 3 = [Begin 0, Finish 0, Begin 1, Finish 1, Begin 2, Finish 2]" by code_simp
  have ro: "run_ok ?es (fold exec [Write, Write, Write] ?s)" by code_simp
  have al: "\<forall>e \<in> set ?es. \<exists>j < 3. e = Begin (0 + j) \<or> e = Finish (0 + j)" by auto
  have ki: "kidle ''k'' new_Asyncmux" by code_simp
  have kl: "length (thens new_Asyncmux) = 0" "length (acquisitions new_Asyncmux) = 0"
    by code_simp+
  have kr: "replicate 3 (Lock (Some ''k'') NoSignal)
      = [Lock (Some ''k'') NoSignal, Lock (Some ''k'') NoSignal, Lock (Some ''k'') NoSignal]"
    by code_simp
  have ks: "kserial 0 0 3 = [RunThen 0, Grant 0, Release 0, Finalize 0, Grant 1, Release 1,
      Finalize 1, Grant 2, Release 2, Finalize 2]"
    by code_simp
  have kro: "krun_ok ?kes (fold kexec
      [Lock (Some ''k'') NoSignal, Lock (Some ''k'') NoSignal, Lock (Some ''k'') NoSignal]
      new_Asyncmux)"
    by code_simp
  have kd: "distinct ?kes" by simp
  have kal: "\<forall>e \<in> set ?kes. e = RunThen 0 \<or>
      (\<exists>j < 3. e = Grant (0 + j) \<or> e = Release (0 + j) \<or> e = Finalize (0 + j))"
    by auto
  show ?thesis
    using i ro al ki kro kd kal
      exclusive_batch_serial [of 0 ?s 3 ?es "''k''" new_Asyncmux 3 ?kes]
    unfolding l r sr kl kr ks
    by blast
qed

lemma second_holder_run:
  "krun_ok [Lock (Some ''k'') NoSignal, Lock (Some ''k'') NoSignal,
       RunThen 0, Grant 0, Release 0, Finalize 0, Grant 1] new_Asyncmux"
  by code_simp

text \<open>
  C1. Exclusive acquisitions launched together on the same key do not always run one
  after the other. \<open>lock("k")\<close> is called twice at once; the first acquisition is granted,
  unlocked and released, after which the second holds the lock (\<open>second_holder\<close>). Now
  \<open>lock("k")\<close> is called twice more at once (\<open>late_pair\<close>: acquisitions \<open>2\<close> and \<open>3\<close>). The
  step list of the writer item is empty at that point, so acquisition \<open>2\<close> gets a resolved
  step promise: it can be granted at once, and then holds the lock together with
  acquisition \<open>1\<close>. When acquisition \<open>1\<close> is unlocked, its \<open>next\<close> takes the \<open>next\<close> of
  acquisition \<open>2\<close> off the step list and calls it, which resolves the step promise of
  acquisition \<open>3\<close>: acquisition \<open>3\<close> is granted while acquisition \<open>2\<close> still holds the lock.
\<close>

theorem late_writers_overlap:
  "holding 1 late_pair \<and> length (acquisitions late_pair) = 4 \<and>
   \<not> holding 0 late_pair \<and> finalized (acquisitions late_pair ! 0) \<and>
   can_grant 2 late_pair \<and> \<not> can_grant 3 late_pair \<and>
   holding 1 (grant 2 late_pair) \<and> holding 2 (grant 2 late_pair) \<and>
   krun_ok [Grant 2, Release 1, Finalize 1, Grant 3] late_pair \<and>
   holding 2 (fold kexec [Grant 2, Release 1, Finalize 1, Grant 3] late_pair) \<and>
   holding 3 (fold kexec [Grant 2, Release 1, Finalize 1, Grant 3] late_pair)"
  by code_simp

section \<open>The release callback of a cancelled acquisition\<close>

lemma count_after_start [simp]: "count (start it) = count it"
  by (cases it) simp_all

lemma count_after_add: "type it = R \<Longrightarrow> count (count_add n it) = count it + n"
  by (cases it) simp_all

lemma nth_update_invariant:
  assumes "\<And>x. f (g x) = f x"
  shows "f (xs[i := g (xs ! i)] ! w) = f (xs ! w)"
proof (cases "i < length xs")
  case True
  then show ?thesis using assms by (cases "w = i") simp_all
next
  case False
  then have "xs[i := g (xs ! i)] = xs" by (simp add: list_update_beyond)
  then show ?thesis by simp
qed

lemma shift_queue_queues:
  "q < length (queues u) \<Longrightarrow> queues (shift_queue q key u) ! q = tl (queues u ! q)"
  by (simp add: shift_queue_def Let_def split: list.splits option.splits)

lemma shift_queue_item:
  "steps (items (shift_queue q key u) ! w) = steps (items u ! w)"
  "count (items (shift_queue q key u) ! w) = count (items u ! w)"
  "promises (shift_queue q key u) = promises u"
  by (simp_all add: shift_queue_def Let_def nth_update_invariant [where g = start]
      split: list.splits option.splits)

lemma kcall_RLockNext_effect:
  assumes "r < length (items u)" and "type (items u ! r) = R"
  shows "count (items (kcall (RLockNext r q key) u) ! r) = count (items u ! r) - 1"
    and "q < length (queues u) \<Longrightarrow>
      queues (kcall (RLockNext r q key) u) ! q
        = (if count (items u ! r) = 1 then tl (queues u ! q) else queues u ! q)"
  using assms
  by (simp_all add: Let_def shift_queue_item shift_queue_queues count_after_add)

lemma kcall_LockNext_effect:
  assumes w: "w < length (items u)"
  shows "after_own_next (LockNext w q key) (steps (items u ! w)) = [] \<Longrightarrow>
      steps (items (kcall (LockNext w q key) u) ! w) = [] \<and>
      promises (kcall (LockNext w q key) u) = promises u \<and>
      (q < length (queues u) \<longrightarrow> queues (kcall (LockNext w q key) u) ! q = tl (queues u ! q))"
    and "after_own_next (LockNext w q key) (steps (items u ! w)) = StepResolve p # rest \<Longrightarrow>
      steps (items (kcall (LockNext w q key) u) ! w) = rest \<and>
      queues (kcall (LockNext w q key) u) = queues u \<and>
      (p < length (promises u) \<longrightarrow> promises (kcall (LockNext w q key) u) ! p)"
proof -
  let ?f = "LockNext w q key"
  let ?u1 = "u\<lparr>items := (items u)[w := steps_shift (items u ! w)]\<rparr>"
  have own: "kcall ?f u = kcall ?f ?u1" "steps (items ?u1 ! w) = ss" "w < length (items ?u1)"
    "queues ?u1 = queues u" "promises ?u1 = promises u"
    if "steps (items u ! w) = ?f # ss" for ss
    using that w kcall_LockNext_LockNext [OF w that] by simp_all
  have e: "steps (items (kcall ?f t) ! w) = [] \<and> promises (kcall ?f t) = promises t \<and>
      (q < length (queues t) \<longrightarrow> queues (kcall ?f t) ! q = tl (queues t ! q))"
    if "w < length (items t)" "steps (items t ! w) = []" for t
    using that kcall_LockNext_empty [OF that]
    by (simp add: shift_queue_item shift_queue_queues del: kcall.simps)
  have r: "steps (items (kcall ?f t) ! w) = rest \<and> queues (kcall ?f t) = queues t \<and>
      (p < length (promises t) \<longrightarrow> promises (kcall ?f t) ! p)"
    if "w < length (items t)" "steps (items t ! w) = StepResolve p # rest" for t
    using that kcall_LockNext_Resolve [OF that] by (simp del: kcall.simps)
  show "steps (items (kcall ?f u) ! w) = [] \<and> promises (kcall ?f u) = promises u \<and>
      (q < length (queues u) \<longrightarrow> queues (kcall ?f u) ! q = tl (queues u ! q))"
    if a: "after_own_next ?f (steps (items u ! w)) = []"
  proof (cases "steps (items u ! w)")
    case Nil
    then show ?thesis using e [OF w] by blast
  next
    case (Cons g ss)
    then have g: "g = ?f" "ss = []" using a by (auto simp: after_own_next_def split: if_splits)
    have st: "steps (items u ! w) = ?f # []" using Cons g by simp
    show ?thesis using e [OF own(3) [OF st] own(2) [OF st]] own [OF st] by simp
  qed
  show "steps (items (kcall ?f u) ! w) = rest \<and> queues (kcall ?f u) = queues u \<and>
      (p < length (promises u) \<longrightarrow> promises (kcall ?f u) ! p)"
    if a: "after_own_next ?f (steps (items u ! w)) = StepResolve p # rest"
  proof (cases "steps (items u ! w)")
    case Nil
    then show ?thesis using a by (simp add: after_own_next_def)
  next
    case (Cons g ss)
    show ?thesis
    proof (cases "g = ?f")
      case True
      then have st: "steps (items u ! w) = ?f # (StepResolve p # rest)"
        using Cons a by (simp add: after_own_next_def)
      show ?thesis using r [OF own(3) [OF st] own(2) [OF st]] own [OF st] by simp
    next
      case False
      then have "steps (items u ! w) = StepResolve p # rest"
        using Cons a by (simp add: after_own_next_def)
      then show ?thesis using r [OF w] by blast
    qed
  qed
qed

lemma finalize_single:
  assumes "nextFuncList (acquisitions u ! a) = [f]"
  shows "items (finalize a u) = items (kcall f u)" "promises (finalize a u) = promises (kcall f u)"
    "queues (finalize a u) = queues (kcall f u)"
  using assms by (simp_all add: finalize_def Let_def del: kcall.simps)

lemma shift_start_item:
  "steps (items (shift_start c u) ! w) = steps (items u ! w)"
  "count (items (shift_start c u) ! w) = count (items u ! w)"
  by (simp_all add: shift_start_def Let_def nth_update_invariant [where g = start]
      split: list.splits)

lemma shift_start_queue:
  "c < length (contexts u) \<Longrightarrow> queue (contexts (shift_start c u) ! c) = tl (queue (contexts u ! c))"
  by (simp add: shift_start_contexts)

lemma call_NextR_effect:
  assumes "r < length (items u)" and "type (items u ! r) = R"
  shows "count (items (call (NextR r c) u) ! r) = count (items u ! r) - 1"
    and "c < length (contexts u) \<Longrightarrow>
      queue (contexts (call (NextR r c) u) ! c)
        = (if count (items u ! r) = 1 then tl (queue (contexts u ! c)) else queue (contexts u ! c))"
  using assms
  by (simp_all add: Let_def shift_start_item shift_start_queue count_after_add)

lemma call_Next_effect:
  assumes w: "w < length (items u)"
  shows "after_own_next (Next w c) (steps (items u ! w)) = [] \<Longrightarrow>
      steps (items (call (Next w c) u) ! w) = [] \<and>
      promises (call (Next w c) u) = promises u \<and>
      (c < length (contexts u) \<longrightarrow>
         queue (contexts (call (Next w c) u) ! c) = tl (queue (contexts u ! c)))"
    and "after_own_next (Next w c) (steps (items u ! w)) = Resolve p # rest \<Longrightarrow>
      steps (items (call (Next w c) u) ! w) = rest \<and>
      contexts (call (Next w c) u) = contexts u \<and>
      (p < length (promises u) \<longrightarrow> promises (call (Next w c) u) ! p)"
proof -
  let ?f = "Next w c"
  let ?u1 = "u\<lparr>items := (items u)[w := steps_shift (items u ! w)]\<rparr>"
  have own: "call ?f u = call ?f ?u1" "steps (items ?u1 ! w) = ss" "w < length (items ?u1)"
    "contexts ?u1 = contexts u" "promises ?u1 = promises u"
    if "steps (items u ! w) = ?f # ss" for ss
    using that w call_Next_Next [OF w that] by simp_all
  have e: "steps (items (call ?f t) ! w) = [] \<and> promises (call ?f t) = promises t \<and>
      (c < length (contexts t) \<longrightarrow> queue (contexts (call ?f t) ! c) = tl (queue (contexts t ! c)))"
    if "w < length (items t)" "steps (items t ! w) = []" for t
    using that call_Next_empty [OF that]
    by (simp add: shift_start_item shift_start_queue shift_start_frame del: call.simps)
  have r: "steps (items (call ?f t) ! w) = rest \<and> contexts (call ?f t) = contexts t \<and>
      (p < length (promises t) \<longrightarrow> promises (call ?f t) ! p)"
    if "w < length (items t)" "steps (items t ! w) = Resolve p # rest" for t
    using that call_Next_Resolve [OF that] by (simp del: call.simps)
  show "steps (items (call ?f u) ! w) = [] \<and> promises (call ?f u) = promises u \<and>
      (c < length (contexts u) \<longrightarrow> queue (contexts (call ?f u) ! c) = tl (queue (contexts u ! c)))"
    if a: "after_own_next ?f (steps (items u ! w)) = []"
  proof (cases "steps (items u ! w)")
    case Nil
    then show ?thesis using e [OF w] by blast
  next
    case (Cons g ss)
    then have g: "g = ?f" "ss = []" using a by (auto simp: after_own_next_def split: if_splits)
    have st: "steps (items u ! w) = ?f # []" using Cons g by simp
    show ?thesis using e [OF own(3) [OF st] own(2) [OF st]] own [OF st] by simp
  qed
  show "steps (items (call ?f u) ! w) = rest \<and> contexts (call ?f u) = contexts u \<and>
      (p < length (promises u) \<longrightarrow> promises (call ?f u) ! p)"
    if a: "after_own_next ?f (steps (items u ! w)) = Resolve p # rest"
  proof (cases "steps (items u ! w)")
    case Nil
    then show ?thesis using a by (simp add: after_own_next_def)
  next
    case (Cons g ss)
    show ?thesis
    proof (cases "g = ?f")
      case True
      then have st: "steps (items u ! w) = ?f # (Resolve p # rest)"
        using Cons a by (simp add: after_own_next_def)
      show ?thesis using r [OF own(3) [OF st] own(2) [OF st]] own [OF st] by simp
    next
      case False
      then have "steps (items u ! w) = Resolve p # rest"
        using Cons a by (simp add: after_own_next_def)
      then show ?thesis using r [OF w] by blast
    qed
  qed
qed

lemma finish_body_release:
  "items (finish_body i u)
     = items (call (release (invocations u ! i)) (u\<lparr>CONTEXT := Some (captured (invocations u ! i))\<rparr>))"
  "promises (finish_body i u)
     = promises (call (release (invocations u ! i)) (u\<lparr>CONTEXT := Some (captured (invocations u ! i))\<rparr>))"
  "contexts (finish_body i u)
     = contexts (call (release (invocations u ! i)) (u\<lparr>CONTEXT := Some (captured (invocations u ! i))\<rparr>))"
  by (simp_all add: finish_body_def Let_def del: call.simps)

lemma keyed_cancel_effects:
  assumes a: "a < length (acquisitions s)" and ok: "krun_ok es (abort a r s)"
  shows "nextFuncList (acquisitions s ! a) = [LockNext w q key] \<and>
      w < length (items (fold kexec es (abort a r s))) \<and>
      after_own_next (LockNext w q key) (steps (items (fold kexec es (abort a r s)) ! w)) = [] \<longrightarrow>
        steps (items (finalize a (fold kexec es (abort a r s))) ! w) = [] \<and>
        (q < length (queues (fold kexec es (abort a r s))) \<longrightarrow>
           queues (finalize a (fold kexec es (abort a r s))) ! q
             = tl (queues (fold kexec es (abort a r s)) ! q))"
    and "nextFuncList (acquisitions s ! a) = [LockNext w q key] \<and>
      w < length (items (fold kexec es (abort a r s))) \<and>
      after_own_next (LockNext w q key) (steps (items (fold kexec es (abort a r s)) ! w))
        = StepResolve p # rest \<longrightarrow>
        steps (items (finalize a (fold kexec es (abort a r s))) ! w) = rest \<and>
        queues (finalize a (fold kexec es (abort a r s))) = queues (fold kexec es (abort a r s)) \<and>
        (p < length (promises (fold kexec es (abort a r s))) \<longrightarrow>
           promises (finalize a (fold kexec es (abort a r s))) ! p)"
    and "nextFuncList (acquisitions s ! a) = [RLockNext n q key] \<and>
      n < length (items (fold kexec es (abort a r s))) \<and>
      type (items (fold kexec es (abort a r s)) ! n) = R \<longrightarrow>
        count (items (finalize a (fold kexec es (abort a r s))) ! n)
          = count (items (fold kexec es (abort a r s)) ! n) - 1 \<and>
        (q < length (queues (fold kexec es (abort a r s))) \<longrightarrow>
           queues (finalize a (fold kexec es (abort a r s))) ! q
             = (if count (items (fold kexec es (abort a r s)) ! n) = 1
                then tl (queues (fold kexec es (abort a r s)) ! q)
                else queues (fold kexec es (abort a r s)) ! q))"
proof -
  let ?c = "abort a r s"
  let ?u = "fold kexec es ?c"
  have c: "a < length (acquisitions ?c)"
    "nextFuncList (acquisitions ?c ! a) = nextFuncList (acquisitions s ! a)"
    using a by (simp_all add: abort_def)
  have n: "nextFuncList (acquisitions ?u ! a) = nextFuncList (acquisitions s ! a)"
    using krun_settles [OF c(1) ok] c(2) by (simp add: settles_def)
  show "nextFuncList (acquisitions s ! a) = [LockNext w q key] \<and> w < length (items ?u) \<and>
      after_own_next (LockNext w q key) (steps (items ?u ! w)) = [] \<longrightarrow>
        steps (items (finalize a ?u) ! w) = [] \<and>
        (q < length (queues ?u) \<longrightarrow> queues (finalize a ?u) ! q = tl (queues ?u ! q))"
  proof
    assume h: "nextFuncList (acquisitions s ! a) = [LockNext w q key] \<and> w < length (items ?u) \<and>
      after_own_next (LockNext w q key) (steps (items ?u ! w)) = []"
    then have f: "nextFuncList (acquisitions ?u ! a) = [LockNext w q key]" using n by simp
    show "steps (items (finalize a ?u) ! w) = [] \<and>
        (q < length (queues ?u) \<longrightarrow> queues (finalize a ?u) ! q = tl (queues ?u ! q))"
      using kcall_LockNext_effect(1) [of w ?u q key] h
      unfolding finalize_single [OF f] by blast
  qed
  show "nextFuncList (acquisitions s ! a) = [LockNext w q key] \<and> w < length (items ?u) \<and>
      after_own_next (LockNext w q key) (steps (items ?u ! w)) = StepResolve p # rest \<longrightarrow>
        steps (items (finalize a ?u) ! w) = rest \<and> queues (finalize a ?u) = queues ?u \<and>
        (p < length (promises ?u) \<longrightarrow> promises (finalize a ?u) ! p)"
  proof
    assume h: "nextFuncList (acquisitions s ! a) = [LockNext w q key] \<and> w < length (items ?u) \<and>
      after_own_next (LockNext w q key) (steps (items ?u ! w)) = StepResolve p # rest"
    then have f: "nextFuncList (acquisitions ?u ! a) = [LockNext w q key]" using n by simp
    show "steps (items (finalize a ?u) ! w) = rest \<and> queues (finalize a ?u) = queues ?u \<and>
        (p < length (promises ?u) \<longrightarrow> promises (finalize a ?u) ! p)"
      using kcall_LockNext_effect(2) [of w ?u q key p rest] h
      unfolding finalize_single [OF f] by blast
  qed
  show "nextFuncList (acquisitions s ! a) = [RLockNext n q key] \<and> n < length (items ?u) \<and>
      type (items ?u ! n) = R \<longrightarrow>
        count (items (finalize a ?u) ! n) = count (items ?u ! n) - 1 \<and>
        (q < length (queues ?u) \<longrightarrow>
           queues (finalize a ?u) ! q
             = (if count (items ?u ! n) = 1 then tl (queues ?u ! q) else queues ?u ! q))"
  proof
    assume h: "nextFuncList (acquisitions s ! a) = [RLockNext n q key] \<and> n < length (items ?u) \<and>
      type (items ?u ! n) = R"
    then have f: "nextFuncList (acquisitions ?u ! a) = [RLockNext n q key]"
      using \<open>nextFuncList (acquisitions ?u ! a) = nextFuncList (acquisitions s ! a)\<close> by simp
    show "count (items (finalize a ?u) ! n) = count (items ?u ! n) - 1 \<and>
        (q < length (queues ?u) \<longrightarrow>
           queues (finalize a ?u) ! q
             = (if count (items ?u ! n) = 1 then tl (queues ?u ! q) else queues ?u ! q))"
      using kcall_RLockNext_effect [of n ?u q key] h
      unfolding finalize_single [OF f] by blast
  qed
qed

lemma manual_release_effects:
  "release (invocations u ! i) = Next w c \<and> w < length (items u) \<and>
     after_own_next (Next w c) (steps (items u ! w)) = [] \<longrightarrow>
       steps (items (finish_body i u) ! w) = [] \<and>
       (c < length (contexts u) \<longrightarrow>
          queue (contexts (finish_body i u) ! c) = tl (queue (contexts u ! c)))"
  "release (invocations u ! i) = Next w c \<and> w < length (items u) \<and>
     after_own_next (Next w c) (steps (items u ! w)) = Resolve p # rest \<longrightarrow>
       steps (items (finish_body i u) ! w) = rest \<and>
       contexts (finish_body i u) = contexts u \<and>
       (p < length (promises u) \<longrightarrow> promises (finish_body i u) ! p)"
  "release (invocations u ! i) = NextR n c \<and> n < length (items u) \<and> type (items u ! n) = R \<longrightarrow>
       count (items (finish_body i u) ! n) = count (items u ! n) - 1 \<and>
       (c < length (contexts u) \<longrightarrow>
          queue (contexts (finish_body i u) ! c)
            = (if count (items u ! n) = 1 then tl (queue (contexts u ! c))
               else queue (contexts u ! c)))"
proof -
  let ?t = "u\<lparr>CONTEXT := Some (captured (invocations u ! i))\<rparr>"
  have t: "items ?t = items u" "promises ?t = promises u" "contexts ?t = contexts u" by simp_all
  show "release (invocations u ! i) = Next w c \<and> w < length (items u) \<and>
     after_own_next (Next w c) (steps (items u ! w)) = [] \<longrightarrow>
       steps (items (finish_body i u) ! w) = [] \<and>
       (c < length (contexts u) \<longrightarrow>
          queue (contexts (finish_body i u) ! c) = tl (queue (contexts u ! c)))"
    using call_Next_effect(1) [of w ?t c] unfolding finish_body_release t by auto
  show "release (invocations u ! i) = Next w c \<and> w < length (items u) \<and>
     after_own_next (Next w c) (steps (items u ! w)) = Resolve p # rest \<longrightarrow>
       steps (items (finish_body i u) ! w) = rest \<and>
       contexts (finish_body i u) = contexts u \<and>
       (p < length (promises u) \<longrightarrow> promises (finish_body i u) ! p)"
    using call_Next_effect(2) [of w ?t c p rest] unfolding finish_body_release t by auto
  show "release (invocations u ! i) = NextR n c \<and> n < length (items u) \<and> type (items u ! n) = R \<longrightarrow>
       count (items (finish_body i u) ! n) = count (items u ! n) - 1 \<and>
       (c < length (contexts u) \<longrightarrow>
          queue (contexts (finish_body i u) ! c)
            = (if count (items u ! n) = 1 then tl (queue (contexts u ! c))
               else queue (contexts u ! c)))"
    using call_NextR_effect [of n ?t c] unfolding finish_body_release t by auto
qed

text \<open>
  C6. Acquisition \<open>a\<close> of a keyed mux has an abort signal and its promise is pending
  when the signal fires with reason \<open>r\<close>; then any run \<open>es\<close> follows. The abort changes
  no queue. The promise is rejected with \<open>r\<close> and stays so, and the acquisition can never
  be granted: the code behind \<open>await lock()\<close> does not run. The queues develop as they
  would have without the abort. The release callback of the acquisition can run exactly
  when its \<open>readyPromise\<close> is resolved (and it has not run yet), and running it leaves
  the queues as they would be had the acquisition been granted at that point, unlocked
  at once, and released. And the callback does its work: for a writer (\<open>lock\<close> on one
  queue) it fires \<open>next\<close>, which, its own entry apart, resolves the step promise at the
  head of the step list and takes it off, or with no step left shifts the queue; for a
  reader (\<open>rLock\<close>) it decrements \<open>count\<close> and shifts the queue when the count was one.

  The same holds for a manual lock \<open>m\<close> of the instance form: the abort rejects its
  promise for good and changes nothing else, the owner develops as without the abort,
  the call \<open>i\<close> that wraps its \<open>waitForUnlock\<close> can finish as soon as it has begun, and
  the \<open>finally\<close> callback of a call fires the same \<open>next\<close>, with the same effects on the
  step list, the step promise, the count and the queue of the context.
\<close>

theorem cancel_runs_release:
  "(a < length (acquisitions s) \<and> listening (acquisitions s ! a) \<and>
    result (acquisitions s ! a) = Pending \<and> krun_ok es (abort a r s) \<longrightarrow>
      same_queues (abort a r s) s \<and>
      result (acquisitions (fold kexec es (abort a r s)) ! a) = Rejected (AbortReason r) \<and>
      \<not> can_grant a (fold kexec es (abort a r s)) \<and>
      same_queues (fold kexec es (abort a r s)) (fold kexec es s) \<and>
      can_finalize a (fold kexec es (abort a r s)) = (all_ready a (fold kexec es (abort a r s)) \<and> \<not> finalized (acquisitions (fold kexec es (abort a r s)) ! a)) \<and>
      same_queues (finalize a (fold kexec es (abort a r s)))
        (finalize a (snd (unlock (lock_handle a) (grant a (fold kexec es s))))) \<and>
      (nextFuncList (acquisitions s ! a) = [LockNext w q key] \<and> w < length (items (fold kexec es (abort a r s))) \<and>
       after_own_next (LockNext w q key) (steps (items (fold kexec es (abort a r s)) ! w)) = [] \<longrightarrow>
         steps (items (finalize a (fold kexec es (abort a r s))) ! w) = [] \<and>
         (q < length (queues (fold kexec es (abort a r s))) \<longrightarrow> queues (finalize a (fold kexec es (abort a r s))) ! q = tl (queues (fold kexec es (abort a r s)) ! q))) \<and>
      (nextFuncList (acquisitions s ! a) = [LockNext w q key] \<and> w < length (items (fold kexec es (abort a r s))) \<and>
       after_own_next (LockNext w q key) (steps (items (fold kexec es (abort a r s)) ! w)) = StepResolve p # rest \<longrightarrow>
         steps (items (finalize a (fold kexec es (abort a r s))) ! w) = rest \<and>
         queues (finalize a (fold kexec es (abort a r s))) = queues (fold kexec es (abort a r s)) \<and>
         (p < length (promises (fold kexec es (abort a r s))) \<longrightarrow> promises (finalize a (fold kexec es (abort a r s))) ! p)) \<and>
      (nextFuncList (acquisitions s ! a) = [RLockNext n q key] \<and> n < length (items (fold kexec es (abort a r s))) \<and>
       type (items (fold kexec es (abort a r s)) ! n) = R \<longrightarrow>
         count (items (finalize a (fold kexec es (abort a r s))) ! n) = count (items (fold kexec es (abort a r s)) ! n) - 1 \<and>
         (q < length (queues (fold kexec es (abort a r s))) \<longrightarrow>
            queues (finalize a (fold kexec es (abort a r s))) ! q
              = (if count (items (fold kexec es (abort a r s)) ! n) = 1 then tl (queues (fold kexec es (abort a r s)) ! q) else queues (fold kexec es (abort a r s)) ! q)))) \<and>
   (m < length (manuals t) \<and> listening (manuals t ! m) \<and> result (manuals t ! m) = Pending \<longrightarrow>
      same_owner (onAbort m r t) t \<and>
      result (manuals (fold exec evs (onAbort m r t)) ! m) = Rejected (AbortReason r) \<and>
      same_owner (fold exec evs (onAbort m r t)) (fold exec evs t) \<and>
      (i < length (invocations (fold exec evs (onAbort m r t))) \<and> wrapped (invocations (fold exec evs (onAbort m r t)) ! i) = WaitForUnlock m \<longrightarrow>
         can_finish i (fold exec evs (onAbort m r t)) = (phase (invocations (fold exec evs (onAbort m r t)) ! i) = Running)) \<and>
      same_owner (finish_body i (fold exec evs (onAbort m r t)))
        (finish_body i (snd (unlock (manual_handle m) (fold exec evs t)))) \<and>
      (release (invocations (fold exec evs (onAbort m r t)) ! i) = Next w' c \<and> w' < length (items (fold exec evs (onAbort m r t))) \<and>
       after_own_next (Next w' c) (steps (items (fold exec evs (onAbort m r t)) ! w')) = [] \<longrightarrow>
         steps (items (finish_body i (fold exec evs (onAbort m r t))) ! w') = [] \<and>
         (c < length (contexts (fold exec evs (onAbort m r t))) \<longrightarrow>
            queue (contexts (finish_body i (fold exec evs (onAbort m r t))) ! c) = tl (queue (contexts (fold exec evs (onAbort m r t)) ! c)))) \<and>
      (release (invocations (fold exec evs (onAbort m r t)) ! i) = Next w' c \<and> w' < length (items (fold exec evs (onAbort m r t))) \<and>
       after_own_next (Next w' c) (steps (items (fold exec evs (onAbort m r t)) ! w')) = Resolve p' # rest' \<longrightarrow>
         steps (items (finish_body i (fold exec evs (onAbort m r t))) ! w') = rest' \<and>
         contexts (finish_body i (fold exec evs (onAbort m r t))) = contexts (fold exec evs (onAbort m r t)) \<and>
         (p' < length (promises (fold exec evs (onAbort m r t))) \<longrightarrow> promises (finish_body i (fold exec evs (onAbort m r t))) ! p')) \<and>
      (release (invocations (fold exec evs (onAbort m r t)) ! i) = NextR n' c \<and> n' < length (items (fold exec evs (onAbort m r t))) \<and>
       type (items (fold exec evs (onAbort m r t)) ! n') = R \<longrightarrow>
         count (items (finish_body i (fold exec evs (onAbort m r t))) ! n') = count (items (fold exec evs (onAbort m r t)) ! n') - 1 \<and>
         (c < length (contexts (fold exec evs (onAbort m r t))) \<longrightarrow>
            queue (contexts (finish_body i (fold exec evs (onAbort m r t))) ! c)
              = (if count (items (fold exec evs (onAbort m r t)) ! n') = 1 then tl (queue (contexts (fold exec evs (onAbort m r t)) ! c))
                 else queue (contexts (fold exec evs (onAbort m r t)) ! c)))))"
proof -
  have k: "same_queues (abort a r s) s \<and>
      result (acquisitions (fold kexec es (abort a r s)) ! a) = Rejected (AbortReason r) \<and>
      \<not> can_grant a (fold kexec es (abort a r s)) \<and>
      same_queues (fold kexec es (abort a r s)) (fold kexec es s) \<and>
      can_finalize a (fold kexec es (abort a r s)) = (all_ready a (fold kexec es (abort a r s)) \<and> \<not> finalized (acquisitions (fold kexec es (abort a r s)) ! a)) \<and>
      same_queues (finalize a (fold kexec es (abort a r s)))
        (finalize a (snd (unlock (lock_handle a) (grant a (fold kexec es s)))))"
    if "a < length (acquisitions s)" "listening (acquisitions s ! a)"
      "result (acquisitions s ! a) = Pending" "krun_ok es (abort a r s)"
    using keyed_cancel [OF that] .
  note ke = keyed_cancel_effects(1) [where a = a and s = s and es = es and r = r and w = w
      and q = q and key = key]
    keyed_cancel_effects(2) [where a = a and s = s and es = es and r = r and w = w
      and q = q and key = key and p = p and rest = rest]
    keyed_cancel_effects(3) [where a = a and s = s and es = es and r = r and n = n
      and q = q and key = key]
  have mc: "same_owner (onAbort m r t) t \<and>
      result (manuals (fold exec evs (onAbort m r t)) ! m) = Rejected (AbortReason r) \<and>
      same_owner (fold exec evs (onAbort m r t)) (fold exec evs t) \<and>
      (i < length (invocations (fold exec evs (onAbort m r t))) \<and> wrapped (invocations (fold exec evs (onAbort m r t)) ! i) = WaitForUnlock m \<longrightarrow>
         can_finish i (fold exec evs (onAbort m r t)) = (phase (invocations (fold exec evs (onAbort m r t)) ! i) = Running)) \<and>
      same_owner (finish_body i (fold exec evs (onAbort m r t)))
        (finish_body i (snd (unlock (manual_handle m) (fold exec evs t))))"
    if "m < length (manuals t)" "listening (manuals t ! m)" "result (manuals t ! m) = Pending"
    using manual_cancel [OF that] .
  note me = manual_release_effects(1) [where u = "fold exec evs (onAbort m r t)" and i = i
      and w = w' and c = c]
    manual_release_effects(2) [where u = "fold exec evs (onAbort m r t)" and i = i
      and w = w' and c = c and p = p' and rest = rest']
    manual_release_effects(3) [where u = "fold exec evs (onAbort m r t)" and i = i
      and n = n' and c = c]
  show ?thesis
  proof (rule conjI; rule impI)
    assume h: "a < length (acquisitions s) \<and> listening (acquisitions s ! a) \<and>
      result (acquisitions s ! a) = Pending \<and> krun_ok es (abort a r s)"
    then have h': "a < length (acquisitions s)" "listening (acquisitions s ! a)"
      "result (acquisitions s ! a) = Pending" "krun_ok es (abort a r s)"
      by simp_all
    from k [OF h'] ke [OF h'(1) h'(4)]
    show "same_queues (abort a r s) s \<and>
      result (acquisitions (fold kexec es (abort a r s)) ! a) = Rejected (AbortReason r) \<and>
      \<not> can_grant a (fold kexec es (abort a r s)) \<and>
      same_queues (fold kexec es (abort a r s)) (fold kexec es s) \<and>
      can_finalize a (fold kexec es (abort a r s)) = (all_ready a (fold kexec es (abort a r s)) \<and> \<not> finalized (acquisitions (fold kexec es (abort a r s)) ! a)) \<and>
      same_queues (finalize a (fold kexec es (abort a r s)))
        (finalize a (snd (unlock (lock_handle a) (grant a (fold kexec es s))))) \<and>
      (nextFuncList (acquisitions s ! a) = [LockNext w q key] \<and> w < length (items (fold kexec es (abort a r s))) \<and>
       after_own_next (LockNext w q key) (steps (items (fold kexec es (abort a r s)) ! w)) = [] \<longrightarrow>
         steps (items (finalize a (fold kexec es (abort a r s))) ! w) = [] \<and>
         (q < length (queues (fold kexec es (abort a r s))) \<longrightarrow> queues (finalize a (fold kexec es (abort a r s))) ! q = tl (queues (fold kexec es (abort a r s)) ! q))) \<and>
      (nextFuncList (acquisitions s ! a) = [LockNext w q key] \<and> w < length (items (fold kexec es (abort a r s))) \<and>
       after_own_next (LockNext w q key) (steps (items (fold kexec es (abort a r s)) ! w)) = StepResolve p # rest \<longrightarrow>
         steps (items (finalize a (fold kexec es (abort a r s))) ! w) = rest \<and>
         queues (finalize a (fold kexec es (abort a r s))) = queues (fold kexec es (abort a r s)) \<and>
         (p < length (promises (fold kexec es (abort a r s))) \<longrightarrow> promises (finalize a (fold kexec es (abort a r s))) ! p)) \<and>
      (nextFuncList (acquisitions s ! a) = [RLockNext n q key] \<and> n < length (items (fold kexec es (abort a r s))) \<and>
       type (items (fold kexec es (abort a r s)) ! n) = R \<longrightarrow>
         count (items (finalize a (fold kexec es (abort a r s))) ! n) = count (items (fold kexec es (abort a r s)) ! n) - 1 \<and>
         (q < length (queues (fold kexec es (abort a r s))) \<longrightarrow>
            queues (finalize a (fold kexec es (abort a r s))) ! q
              = (if count (items (fold kexec es (abort a r s)) ! n) = 1 then tl (queues (fold kexec es (abort a r s)) ! q) else queues (fold kexec es (abort a r s)) ! q)))"
      by (intro conjI) (rule conjunct1, assumption | rule conjunct2, assumption | assumption | blast)+
  next
    assume h: "m < length (manuals t) \<and> listening (manuals t ! m) \<and> result (manuals t ! m) = Pending"
    then have h': "m < length (manuals t)" "listening (manuals t ! m)"
      "result (manuals t ! m) = Pending"
      by simp_all
    from mc [OF h'] me
    show "same_owner (onAbort m r t) t \<and>
      result (manuals (fold exec evs (onAbort m r t)) ! m) = Rejected (AbortReason r) \<and>
      same_owner (fold exec evs (onAbort m r t)) (fold exec evs t) \<and>
      (i < length (invocations (fold exec evs (onAbort m r t))) \<and> wrapped (invocations (fold exec evs (onAbort m r t)) ! i) = WaitForUnlock m \<longrightarrow>
         can_finish i (fold exec evs (onAbort m r t)) = (phase (invocations (fold exec evs (onAbort m r t)) ! i) = Running)) \<and>
      same_owner (finish_body i (fold exec evs (onAbort m r t)))
        (finish_body i (snd (unlock (manual_handle m) (fold exec evs t)))) \<and>
      (release (invocations (fold exec evs (onAbort m r t)) ! i) = Next w' c \<and> w' < length (items (fold exec evs (onAbort m r t))) \<and>
       after_own_next (Next w' c) (steps (items (fold exec evs (onAbort m r t)) ! w')) = [] \<longrightarrow>
         steps (items (finish_body i (fold exec evs (onAbort m r t))) ! w') = [] \<and>
         (c < length (contexts (fold exec evs (onAbort m r t))) \<longrightarrow>
            queue (contexts (finish_body i (fold exec evs (onAbort m r t))) ! c) = tl (queue (contexts (fold exec evs (onAbort m r t)) ! c)))) \<and>
      (release (invocations (fold exec evs (onAbort m r t)) ! i) = Next w' c \<and> w' < length (items (fold exec evs (onAbort m r t))) \<and>
       after_own_next (Next w' c) (steps (items (fold exec evs (onAbort m r t)) ! w')) = Resolve p' # rest' \<longrightarrow>
         steps (items (finish_body i (fold exec evs (onAbort m r t))) ! w') = rest' \<and>
         contexts (finish_body i (fold exec evs (onAbort m r t))) = contexts (fold exec evs (onAbort m r t)) \<and>
         (p' < length (promises (fold exec evs (onAbort m r t))) \<longrightarrow> promises (finish_body i (fold exec evs (onAbort m r t))) ! p')) \<and>
      (release (invocations (fold exec evs (onAbort m r t)) ! i) = NextR n' c \<and> n' < length (items (fold exec evs (onAbort m r t))) \<and>
       type (items (fold exec evs (onAbort m r t)) ! n') = R \<longrightarrow>
         count (items (finish_body i (fold exec evs (onAbort m r t))) ! n') = count (items (fold exec evs (onAbort m r t)) ! n') - 1 \<and>
         (c < length (contexts (fold exec evs (onAbort m r t))) \<longrightarrow>
            queue (contexts (finish_body i (fold exec evs (onAbort m r t))) ! c)
              = (if count (items (fold exec evs (onAbort m r t)) ! n') = 1 then tl (queue (contexts (fold exec evs (onAbort m r t)) ! c))
                 else queue (contexts (fold exec evs (onAbort m r t)) ! c))))"
      by blast
  qed
qed

theorem cancel_runs_release_witness:
  "1 < length (acquisitions three_waiting) \<and> listening (acquisitions three_waiting ! 1) \<and>
   result (acquisitions three_waiting ! 1) = Pending \<and>
   krun_ok [RunThen 0, Grant 0, Release 0, Finalize 0] (abort 1 ''stop'' three_waiting) \<and>
   result (acquisitions (fold kexec [RunThen 0, Grant 0, Release 0, Finalize 0] (abort 1 ''stop'' three_waiting)) ! 1) = Rejected (AbortReason ''stop'') \<and>
   \<not> can_grant 1 (fold kexec [RunThen 0, Grant 0, Release 0, Finalize 0] (abort 1 ''stop'' three_waiting)) \<and> can_finalize 1 (fold kexec [RunThen 0, Grant 0, Release 0, Finalize 0] (abort 1 ''stop'' three_waiting)) \<and> \<not> can_grant 2 (fold kexec [RunThen 0, Grant 0, Release 0, Finalize 0] (abort 1 ''stop'' three_waiting)) \<and>
   same_queues (finalize 1 (fold kexec [RunThen 0, Grant 0, Release 0, Finalize 0] (abort 1 ''stop'' three_waiting)))
     (finalize 1 (snd (unlock (lock_handle 1) (grant 1 (fold kexec [RunThen 0, Grant 0, Release 0, Finalize 0] three_waiting))))) \<and>
   steps (items (finalize 1 (fold kexec [RunThen 0, Grant 0, Release 0, Finalize 0] (abort 1 ''stop'' three_waiting))) ! 1) = [] \<and> promises (finalize 1 (fold kexec [RunThen 0, Grant 0, Release 0, Finalize 0] (abort 1 ''stop'' three_waiting))) ! 1 \<and>
   can_grant 2 (finalize 1 (fold kexec [RunThen 0, Grant 0, Release 0, Finalize 0] (abort 1 ''stop'' three_waiting))) \<and>
   krun_ok [RunThen 0] (abort 1 ''stop'' two_reading) \<and>
   count (items (fold kexec [RunThen 0] (abort 1 ''stop'' two_reading)) ! 1) = 2 \<and> count (items (finalize 1 (fold kexec [RunThen 0] (abort 1 ''stop'' two_reading))) ! 1) = 1 \<and>
   1 < length (manuals three_manual) \<and> listening (manuals three_manual ! 1) \<and>
   result (manuals three_manual ! 1) = Pending \<and>
   run_ok [Begin 0, Unlock 0, Finish 0, Begin 1] (onAbort 1 ''stop'' three_manual) \<and>
   result (manuals (fold exec [Begin 0, Unlock 0, Finish 0, Begin 1] (onAbort 1 ''stop'' three_manual)) ! 1) = Rejected (AbortReason ''stop'') \<and>
   can_finish 1 (fold exec [Begin 0, Unlock 0, Finish 0, Begin 1] (onAbort 1 ''stop'' three_manual)) \<and> \<not> can_begin 2 (fold exec [Begin 0, Unlock 0, Finish 0, Begin 1] (onAbort 1 ''stop'' three_manual)) \<and>
   same_owner (finish_body 1 (fold exec [Begin 0, Unlock 0, Finish 0, Begin 1] (onAbort 1 ''stop'' three_manual)))
     (finish_body 1 (snd (unlock (manual_handle 1) (fold exec [Begin 0, Unlock 0, Finish 0, Begin 1] three_manual)))) \<and>
   steps (items (finish_body 1 (fold exec [Begin 0, Unlock 0, Finish 0, Begin 1] (onAbort 1 ''stop'' three_manual))) ! 0) = [] \<and> promises (finish_body 1 (fold exec [Begin 0, Unlock 0, Finish 0, Begin 1] (onAbort 1 ''stop'' three_manual))) ! 1 \<and>
   can_begin 2 (finish_body 1 (fold exec [Begin 0, Unlock 0, Finish 0, Begin 1] (onAbort 1 ''stop'' three_manual))) \<and>
   run_ok [Begin 0, Begin 1] (onAbort 1 ''stop'' two_manual_readers) \<and>
   count (items (fold exec [Begin 0, Begin 1] (onAbort 1 ''stop'' two_manual_readers)) ! 0) = 2 \<and> count (items (finish_body 1 (fold exec [Begin 0, Begin 1] (onAbort 1 ''stop'' two_manual_readers))) ! 0) = 1"
proof -
  have k: "1 < length (acquisitions three_waiting) \<and> listening (acquisitions three_waiting ! 1) \<and>
    result (acquisitions three_waiting ! 1) = Pending \<and>
    krun_ok [RunThen 0, Grant 0, Release 0, Finalize 0] (abort 1 ''stop'' three_waiting)"
    by code_simp
  have ku: "all_ready 1 (fold kexec [RunThen 0, Grant 0, Release 0, Finalize 0] (abort 1 ''stop'' three_waiting)) \<and> \<not> finalized (acquisitions (fold kexec [RunThen 0, Grant 0, Release 0, Finalize 0] (abort 1 ''stop'' three_waiting)) ! 1) \<and> \<not> can_grant 2 (fold kexec [RunThen 0, Grant 0, Release 0, Finalize 0] (abort 1 ''stop'' three_waiting)) \<and>
    nextFuncList (acquisitions three_waiting ! 1) = [LockNext 1 1 (Some ''k'')] \<and>
    1 < length (items (fold kexec [RunThen 0, Grant 0, Release 0, Finalize 0] (abort 1 ''stop'' three_waiting))) \<and>
    after_own_next (LockNext 1 1 (Some ''k'')) (steps (items (fold kexec [RunThen 0, Grant 0, Release 0, Finalize 0] (abort 1 ''stop'' three_waiting)) ! 1)) = StepResolve 1 # [] \<and>
    1 < length (promises (fold kexec [RunThen 0, Grant 0, Release 0, Finalize 0] (abort 1 ''stop'' three_waiting))) \<and> can_grant 2 (finalize 1 (fold kexec [RunThen 0, Grant 0, Release 0, Finalize 0] (abort 1 ''stop'' three_waiting)))"
    by code_simp
  have kr: "1 < length (acquisitions two_reading) \<and> listening (acquisitions two_reading ! 1) \<and>
    result (acquisitions two_reading ! 1) = Pending \<and>
    krun_ok [RunThen 0] (abort 1 ''stop'' two_reading) \<and>
    nextFuncList (acquisitions two_reading ! 1) = [RLockNext 1 1 (Some ''k'')] \<and>
    1 < length (items (fold kexec [RunThen 0] (abort 1 ''stop'' two_reading))) \<and> type (items (fold kexec [RunThen 0] (abort 1 ''stop'' two_reading)) ! 1) = R \<and> count (items (fold kexec [RunThen 0] (abort 1 ''stop'' two_reading)) ! 1) = 2"
    by code_simp
  have m: "1 < length (manuals three_manual) \<and> listening (manuals three_manual ! 1) \<and>
    result (manuals three_manual ! 1) = Pending \<and>
    run_ok [Begin 0, Unlock 0, Finish 0, Begin 1] (onAbort 1 ''stop'' three_manual)"
    by code_simp
  have mu: "1 < length (invocations (fold exec [Begin 0, Unlock 0, Finish 0, Begin 1] (onAbort 1 ''stop'' three_manual))) \<and> wrapped (invocations (fold exec [Begin 0, Unlock 0, Finish 0, Begin 1] (onAbort 1 ''stop'' three_manual)) ! 1) = WaitForUnlock 1 \<and>
    phase (invocations (fold exec [Begin 0, Unlock 0, Finish 0, Begin 1] (onAbort 1 ''stop'' three_manual)) ! 1) = Running \<and> \<not> can_begin 2 (fold exec [Begin 0, Unlock 0, Finish 0, Begin 1] (onAbort 1 ''stop'' three_manual)) \<and>
    release (invocations (fold exec [Begin 0, Unlock 0, Finish 0, Begin 1] (onAbort 1 ''stop'' three_manual)) ! 1) = Next 0 0 \<and> 0 < length (items (fold exec [Begin 0, Unlock 0, Finish 0, Begin 1] (onAbort 1 ''stop'' three_manual))) \<and>
    after_own_next (Next 0 0) (steps (items (fold exec [Begin 0, Unlock 0, Finish 0, Begin 1] (onAbort 1 ''stop'' three_manual)) ! 0)) = Resolve 1 # [] \<and>
    1 < length (promises (fold exec [Begin 0, Unlock 0, Finish 0, Begin 1] (onAbort 1 ''stop'' three_manual))) \<and> can_begin 2 (finish_body 1 (fold exec [Begin 0, Unlock 0, Finish 0, Begin 1] (onAbort 1 ''stop'' three_manual)))"
    by code_simp
  have mr: "1 < length (manuals two_manual_readers) \<and> listening (manuals two_manual_readers ! 1) \<and>
    result (manuals two_manual_readers ! 1) = Pending \<and>
    run_ok [Begin 0, Begin 1] (onAbort 1 ''stop'' two_manual_readers) \<and>
    release (invocations (fold exec [Begin 0, Begin 1] (onAbort 1 ''stop'' two_manual_readers)) ! 1) = NextR 0 0 \<and> 0 < length (items (fold exec [Begin 0, Begin 1] (onAbort 1 ''stop'' two_manual_readers))) \<and>
    type (items (fold exec [Begin 0, Begin 1] (onAbort 1 ''stop'' two_manual_readers)) ! 0) = R \<and> count (items (fold exec [Begin 0, Begin 1] (onAbort 1 ''stop'' two_manual_readers)) ! 0) = 2"
    by code_simp
  note w = cancel_runs_release [where a = 1 and s = three_waiting and es = "[RunThen 0, Grant 0, Release 0, Finalize 0]" and r = "''stop''"
      and w = 1 and q = 1 and key = "Some ''k''" and p = 1 and rest = "[]" and n = 1
      and m = 1 and t = three_manual and evs = "[Begin 0, Unlock 0, Finish 0, Begin 1]" and i = 1 and w' = 0 and c = 0
      and p' = 1 and rest' = "[]" and n' = 0]
  note rd = cancel_runs_release [where a = 1 and s = two_reading and es = "[RunThen 0]"
      and r = "''stop''" and w = 1 and q = 1 and key = "Some ''k''" and p = 1 and rest = "[]"
      and n = 1 and m = 1 and t = two_manual_readers and evs = "[Begin 0, Begin 1]" and i = 1
      and w' = 0 and c = 0 and p' = 1 and rest' = "[]" and n' = 0]
  have c1: "count (items (finalize 1 (fold kexec [RunThen 0] (abort 1 ''stop'' two_reading))) ! 1) = count (items (fold kexec [RunThen 0] (abort 1 ''stop'' two_reading)) ! 1) - 1"
    using kr rd by blast
  have c2: "count (items (finish_body 1 (fold exec [Begin 0, Begin 1] (onAbort 1 ''stop'' two_manual_readers))) ! 0) = count (items (fold exec [Begin 0, Begin 1] (onAbort 1 ''stop'' two_manual_readers)) ! 0) - 1"
    using mr rd by blast
  have c: "count (items (finalize 1 (fold kexec [RunThen 0] (abort 1 ''stop'' two_reading))) ! 1) = 1" "count (items (finish_body 1 (fold exec [Begin 0, Begin 1] (onAbort 1 ''stop'' two_manual_readers))) ! 0) = 1"
    using c1 c2 kr mr by simp_all
  show ?thesis
    using k ku kr m mu mr c w by blast
qed

section \<open>Writer calls nested in a writer's method\<close>


































end
